theory Spec2Isabelle
  imports
    Complex_Main
    "HOL-Library.Multiset"
    "HOL-Library.Sublist"
    "HOL-Library.Char_ord"
    "HOL-Library.List_Lexorder"
    "HOL-Library.Product_Lexorder"
begin

section \<open>Cell values\<close>

text \<open>
  A numeric cell of the data frame is a float64. Its finite values are modelled by
  the rational number they denote; the three non-finite values are kept apart, with
  the IEEE 754 rules for them. Rounding, overflow of finite results and the sign of
  zero are outside this model: arithmetic on finite values is exact. For that reason
  nothing below equates two finite sums that are taken in different orders, or a sum
  of quotients with a constant: on float64 such identities hold up to rounding at
  best.
\<close>

datatype float64 = Fin rat | PosInf | NegInf | NaN

fun isnan :: "float64 \<Rightarrow> bool" where
  "isnan NaN = True"
| "isnan _ = False"

fun isfinite :: "float64 \<Rightarrow> bool" where
  "isfinite (Fin _) = True"
| "isfinite _ = False"

fun isinf :: "float64 \<Rightarrow> bool" where
  "isinf PosInf = True"
| "isinf NegInf = True"
| "isinf _ = False"

text \<open>Addition: NaN absorbs, opposite infinities give NaN, an infinity absorbs the rest.\<close>

fun fadd :: "float64 \<Rightarrow> float64 \<Rightarrow> float64" where
  "fadd NaN _ = NaN"
| "fadd _ NaN = NaN"
| "fadd (Fin a) (Fin b) = Fin (a + b)"
| "fadd PosInf NegInf = NaN"
| "fadd NegInf PosInf = NaN"
| "fadd PosInf _ = PosInf"
| "fadd _ PosInf = PosInf"
| "fadd NegInf _ = NegInf"
| "fadd _ NegInf = NegInf"

instantiation float64 :: comm_monoid_add
begin

definition zero_float64 :: float64 where
  "zero_float64 = Fin 0"

definition plus_float64 :: "float64 \<Rightarrow> float64 \<Rightarrow> float64" where
  "plus_float64 a b = fadd a b"

instance
proof
  fix a b c :: float64
  show "a + b + c = a + (b + c)"
    unfolding plus_float64_def by (cases a; cases b; cases c) simp_all
  show "a + b = b + a"
    unfolding plus_float64_def by (cases a; cases b) simp_all
  show "0 + a = a"
    unfolding plus_float64_def zero_float64_def by (cases a) simp_all
qed

end

text \<open>
  True division \<open>a / b\<close> of two float64 cells, as pandas computes it on numeric columns:
  it never raises. A zero divisor gives an infinity (by the sign of the dividend) or
  NaN for \<open>0 / 0\<close>.
\<close>

fun fdiv :: "float64 \<Rightarrow> float64 \<Rightarrow> float64" where
  "fdiv NaN _ = NaN"
| "fdiv _ NaN = NaN"
| "fdiv (Fin a) (Fin b) =
     (if b \<noteq> 0 then Fin (a / b)
      else if a = 0 then NaN
      else if 0 < a then PosInf else NegInf)"
| "fdiv (Fin a) _ = Fin 0"
| "fdiv PosInf (Fin b) = (if 0 \<le> b then PosInf else NegInf)"
| "fdiv NegInf (Fin b) = (if 0 \<le> b then NegInf else PosInf)"
| "fdiv _ _ = NaN"

text \<open>The comparison \<open>a <= b\<close> of float64 cells: false as soon as one side is NaN.\<close>

fun fle :: "float64 \<Rightarrow> float64 \<Rightarrow> bool" where
  "fle NaN _ = False"
| "fle _ NaN = False"
| "fle (Fin a) (Fin b) = (a \<le> b)"
| "fle NegInf _ = True"
| "fle _ PosInf = True"
| "fle _ _ = False"

text \<open>
  A parsed \<open>order_date\<close> is a timestamp: year, month, day and the nanoseconds since
  midnight, compared lexicographically. A missing date is NaT, here \<open>None\<close>; every
  comparison with NaT is false.
\<close>

type_synonym timestamp = "int \<times> nat \<times> nat \<times> nat"

definition tle :: "timestamp option \<Rightarrow> timestamp option \<Rightarrow> bool" where
  "tle a b = (case (a, b) of (Some s, Some t) \<Rightarrow> s \<le> t | _ \<Rightarrow> False)"

definition isnat :: "timestamp option \<Rightarrow> bool" where
  "isnat a = (a = None)"

text \<open>\<open>.dt.to_period("M").dt.to_timestamp()\<close>: midnight of the first day of the month.\<close>

fun month_start :: "timestamp \<Rightarrow> timestamp" where
  "month_start (y, m, d, ns) = (y, m, 1, 0)"

section \<open>Rows\<close>

text \<open>
  A row as \<open>pd.read_csv\<close> delivers it, then the row of the loaded data set with the two
  derived columns, then the row of the ranked table with two more. The four numeric
  columns are read as columns of float64. A text cell that is empty in the file is
  read as a missing value (a float NaN in a column of strings), here \<open>None\<close>.
\<close>

record sale =
  order_date :: "timestamp option"
  region :: "string option"
  customer_segment :: "string option"
  product_category :: "string option"
  sub_category :: "string option"
  revenue :: float64
  profit :: float64
  units :: float64
  discount :: float64

record sale_row = sale +
  month :: "timestamp option"
  gross_margin :: float64

record ranked_row = sale_row +
  revenue_per_unit :: float64
  contribution :: float64

section \<open>Exceptions\<close>

text \<open>
  The exceptions of the interpreter that the computations below can meet.
  \<open>AttributeError\<close> is what the \<open>.dt\<close> accessor raises on a column that is not of a
  date type, \<open>TypeError\<close> what the comparison of a string with a float raises,
  \<open>IndexError\<close> what \<open>.iloc\<close> raises out of range. \<open>ZeroDivisionError\<close> is what the
  division of two numbers of the interpreter raises on a zero divisor; no division of
  the program is of that kind (they divide columns), so nothing below produces it.
\<close>

datatype error = AttributeError | TypeError | IndexError | ZeroDivisionError

section \<open>Sorting a frame by one column\<close>

text \<open>
  \<open>DataFrame.sort_values\<close> is called with its default \<open>kind = "quicksort"\<close>, which the
  library documents as not stable. What it hands to the sorting routine is the column
  without its missing values; what it gets back is an index list. The routine is a
  parameter \<open>asrt\<close> of the model, and \<open>argsort_ok\<close> states what every kind of sort
  guarantees: the index list is a permutation that puts the keys in ascending order.
  Nothing is said about the order of equal keys.
\<close>

definition argsort_ok ::
  "('k \<Rightarrow> 'k \<Rightarrow> bool) \<Rightarrow> ('k \<Rightarrow> bool) \<Rightarrow> ('k list \<Rightarrow> nat list) \<Rightarrow> bool" where
  "argsort_ok le isna asrt =
     (\<forall>ks. (\<forall>k \<in> set ks. \<not> isna k) \<longrightarrow>
        mset (asrt ks) = mset [0..<length ks] \<and>
        sorted_wrt le (map ((!) ks) (asrt ks)))"

text \<open>
  \<open>pandas.core.sorting.nargsort\<close> with \<open>na_position = "last"\<close>: the positions of the
  missing keys are set aside in their order, the others are sorted (for a descending
  sort the column is reversed before the sort and the result after it) and the missing
  ones are appended.
\<close>

definition nargsort ::
  "('k list \<Rightarrow> nat list) \<Rightarrow> ('k \<Rightarrow> bool) \<Rightarrow> bool \<Rightarrow> 'k list \<Rightarrow> nat list" where
  "nargsort asrt isna ascending items =
     (let idx = [0..<length items];
          nan_idx = filter (\<lambda>i. isna (items ! i)) idx;
          non_nan_idx = filter (\<lambda>i. \<not> isna (items ! i)) idx;
          non_nan_idx = (if ascending then non_nan_idx else rev non_nan_idx);
          non_nans = map ((!) items) non_nan_idx;
          indexer = map ((!) non_nan_idx) (asrt non_nans);
          indexer = (if ascending then indexer else rev indexer)
      in indexer @ nan_idx)"

definition sort_values ::
  "('k list \<Rightarrow> nat list) \<Rightarrow> ('k \<Rightarrow> bool) \<Rightarrow> ('r \<Rightarrow> 'k) \<Rightarrow> bool \<Rightarrow> 'r list \<Rightarrow> 'r list" where
  "sort_values asrt isna key ascending df =
     map ((!) df) (nargsort asrt isna ascending (map key df))"

section \<open>load_data\<close>

definition derive :: "sale \<Rightarrow> sale_row" where
  "derive r =
     sale.extend r
       (sale_row.fields (map_option month_start (order_date r)) (fdiv (profit r) (revenue r)))"

text \<open>
  A file with a header and no row gives \<open>order_date\<close> the type \<open>object\<close>, not a date
  type: the sort of the empty frame passes, and \<open>.dt\<close> on that column raises. With one
  row or more the column is a date column (a cell without a date is NaT), the frame is
  sorted by it and the two columns are added to every row.
\<close>

definition load_data ::
  "(timestamp option list \<Rightarrow> nat list) \<Rightarrow> sale list \<Rightarrow> error + sale_row list" where
  "load_data asrt csv =
     (let df = sort_values asrt isnat order_date True csv
      in if csv = [] then Inl AttributeError else Inr (map derive df))"

section \<open>Two admissible sorting routines\<close>

text \<open>
  Two sorting routines that meet \<open>argsort_ok\<close>, both by insertion into a sorted list of
  (key, position) pairs. \<open>argsort_insertion\<close> inserts the positions from the last to the
  first and is stable; \<open>argsort_backward\<close> inserts them from the first to the last and
  leaves equal keys in the reverse of their source order. Neither is the routine of
  the library, whose order of equal keys depends on the length of the column; they
  are the instances at which the theorems about every admissible routine are
  evaluated.
\<close>

fun ins :: "('k \<Rightarrow> 'k \<Rightarrow> bool) \<Rightarrow> ('k \<times> nat) \<Rightarrow> ('k \<times> nat) list \<Rightarrow> ('k \<times> nat) list" where
  "ins le p [] = [p]"
| "ins le p (q # qs) = (if le (fst p) (fst q) then p # q # qs else q # ins le p qs)"

definition argsort_insertion :: "('k \<Rightarrow> 'k \<Rightarrow> bool) \<Rightarrow> 'k list \<Rightarrow> nat list" where
  "argsort_insertion le ks = map snd (foldr (ins le) (zip ks [0..<length ks]) [])"

definition argsort_backward :: "('k \<Rightarrow> 'k \<Rightarrow> bool) \<Rightarrow> 'k list \<Rightarrow> nat list" where
  "argsort_backward le ks = map snd (fold (ins le) (zip ks [0..<length ks]) [])"

text \<open>
  The order a sorted frame is in: ascending or descending on the keys that are
  present, every missing key after them.
\<close>

definition na_last :: "('k \<Rightarrow> 'k \<Rightarrow> bool) \<Rightarrow> ('k \<Rightarrow> bool) \<Rightarrow> 'k \<Rightarrow> 'k \<Rightarrow> bool" where
  "na_last le isna a b = (isna b \<or> (\<not> isna a \<and> le a b))"

section \<open>The filter\<close>

text \<open>
  What the controls of the sidebar hand back: two dates and three selections. A
  selection is a list of cell values, so it can hold the missing value too.
\<close>

record criteria =
  start_date :: timestamp
  end_date :: timestamp
  selected_regions :: "string option list"
  selected_segments :: "string option list"
  selected_categories :: "string option list"

text \<open>
  Column operations: each yields a boolean column of the length of its input.
  \<open>Series.isin\<close> counts a missing cell as a member when the values hold the missing
  value.
\<close>

definition ge_series :: "timestamp option list \<Rightarrow> timestamp \<Rightarrow> bool list" where
  "ge_series col t = map (\<lambda>d. tle (Some t) d) col"

definition le_series :: "timestamp option list \<Rightarrow> timestamp \<Rightarrow> bool list" where
  "le_series col t = map (\<lambda>d. tle d (Some t)) col"

definition isin :: "string option list \<Rightarrow> string option list \<Rightarrow> bool list" where
  "isin col vals = map (\<lambda>v. v \<in> set vals) col"

definition and_series :: "bool list \<Rightarrow> bool list \<Rightarrow> bool list" where
  "and_series a b = map (\<lambda>(x, y). x \<and> y) (zip a b)"

definition loc :: "'r list \<Rightarrow> bool list \<Rightarrow> 'r list" where
  "loc df msk = map fst (filter snd (zip df msk))"

definition mask :: "sale_row list \<Rightarrow> criteria \<Rightarrow> bool list" where
  "mask df c =
     and_series
       (and_series
         (and_series
           (and_series
             (ge_series (map order_date df) (start_date c))
             (le_series (map order_date df) (end_date c)))
           (isin (map region df) (selected_regions c)))
         (isin (map customer_segment df) (selected_segments c)))
       (isin (map product_category df) (selected_categories c))"

definition filtered :: "sale_row list \<Rightarrow> criteria \<Rightarrow> sale_row list" where
  "filtered df c = loc df (mask df c)"

text \<open>The predicate of the specification, in its words, for one row.\<close>

definition matches :: "criteria \<Rightarrow> sale_row \<Rightarrow> bool" where
  "matches c r =
     (tle (Some (start_date c)) (order_date r) \<and> tle (order_date r) (Some (end_date c))
      \<and> region r \<in> set (selected_regions c)
      \<and> customer_segment r \<in> set (selected_segments c)
      \<and> product_category r \<in> set (selected_categories c))"

section \<open>Aggregates\<close>

text \<open>
  \<open>Series.sum\<close> and \<open>Series.mean\<close> skip missing values (\<open>skipna = True\<close>): the sum
  replaces each NaN by 0 and adds everything up; the mean divides that sum by the number
  of values that are not NaN and is NaN when there is none.
\<close>

definition nansum :: "float64 list \<Rightarrow> float64" where
  "nansum xs = sum_list (map (\<lambda>x. if isnan x then 0 else x) xs)"

definition nanmean :: "float64 list \<Rightarrow> float64" where
  "nanmean xs =
     (let n = length xs - length (filter isnan xs);
          the_sum = sum_list (map (\<lambda>x. if isnan x then 0 else x) xs)
      in if 0 < n then fdiv the_sum (Fin (of_nat n)) else NaN)"

text \<open>
  The aggregations of a group in \<open>groupby\<close>: the loop adds the values that are not NaN
  and counts them.
\<close>

definition group_sum :: "float64 list \<Rightarrow> float64" where
  "group_sum xs = sum_list (filter (\<lambda>x. \<not> isnan x) xs)"

definition group_mean :: "float64 list \<Rightarrow> float64" where
  "group_mean xs =
     (let ys = filter (\<lambda>x. \<not> isnan x) xs
      in if ys = [] then NaN else fdiv (sum_list ys) (Fin (of_nat (length ys))))"

text \<open>The distinct values of a column in the order of their first occurrence.\<close>

fun uniques_from :: "'a list \<Rightarrow> 'a list \<Rightarrow> 'a list" where
  "uniques_from seen [] = []"
| "uniques_from seen (x # xs) =
     (if x \<in> set seen then uniques_from seen xs else x # uniques_from (x # seen) xs)"

definition uniques :: "'a list \<Rightarrow> 'a list" where
  "uniques xs = uniques_from [] xs"

text \<open>
  \<open>df.groupby(key, as_index=False)[col].agg()\<close> with the defaults \<open>sort = True\<close> and
  \<open>dropna = True\<close>: rows with a missing key are left out, the distinct keys are sorted,
  and each key comes with the aggregate of its rows' values.
\<close>

definition groupby ::
  "('r \<Rightarrow> 'k::linorder option) \<Rightarrow> ('r \<Rightarrow> float64) \<Rightarrow> (float64 list \<Rightarrow> float64) \<Rightarrow> 'r list
     \<Rightarrow> ('k \<times> float64) list" where
  "groupby key col agg df =
     map (\<lambda>k. (k, agg (map col (filter (\<lambda>r. key r = Some k) df))))
       (sort (uniques (List.map_filter key df)))"

definition revenue_by_month :: "sale_row list \<Rightarrow> (timestamp \<times> float64) list" where
  "revenue_by_month df = groupby month revenue group_sum df"

definition margin_by_category :: "sale_row list \<Rightarrow> (string \<times> float64) list" where
  "margin_by_category df = groupby product_category gross_margin group_mean df"

definition revenue_by_region :: "sale_row list \<Rightarrow> (string \<times> float64) list" where
  "revenue_by_region df = groupby region revenue group_sum df"

text \<open>The five indicators.\<close>

definition total_revenue :: "sale_row list \<Rightarrow> float64" where
  "total_revenue df = nansum (map revenue df)"

definition total_profit :: "sale_row list \<Rightarrow> float64" where
  "total_profit df = nansum (map profit df)"

definition total_units :: "sale_row list \<Rightarrow> float64" where
  "total_units df = nansum (map units df)"

definition avg_discount :: "sale_row list \<Rightarrow> float64" where
  "avg_discount df = nanmean (map discount df)"

definition avg_gross_margin :: "sale_row list \<Rightarrow> float64" where
  "avg_gross_margin df = nanmean (map gross_margin df)"

section \<open>The ranked table\<close>

definition assign :: "float64 \<Rightarrow> sale_row \<Rightarrow> ranked_row" where
  "assign total_rev r =
     sale_row.extend r
       (ranked_row.fields (fdiv (revenue r) (units r)) (fdiv (revenue r) total_rev))"

text \<open>The table before \<open>head\<close> cuts it, and after.\<close>

definition ranked_full :: "(float64 list \<Rightarrow> nat list) \<Rightarrow> sale_row list \<Rightarrow> float64 \<Rightarrow> ranked_row list" where
  "ranked_full asrt df total_rev = sort_values asrt isnan revenue False (map (assign total_rev) df)"

definition rank :: "(float64 list \<Rightarrow> nat list) \<Rightarrow> sale_row list \<Rightarrow> float64 \<Rightarrow> nat \<Rightarrow> ranked_row list" where
  "rank asrt df total_rev limit = take limit (ranked_full asrt df total_rev)"

section \<open>The page\<close>

text \<open>
  \<open>main\<close> renders the page by a sequence of calls; the model returns the elements it
  shows, in order, or the exception it raises. An element stands for the call and the
  data handed to it: what the presentation library does with them is outside the
  model, and so is the choice the user makes in the sidebar, which is the argument
  \<open>c\<close>. Calls that only lay the page out (rules, tabs, headings inside a tab) are left
  out. The computations of \<open>main\<close> itself can raise in three places: \<open>load_data\<close> on a
  data set without rows, \<open>sorted\<close> over the distinct values of a column that holds
  text and missing cells, and \<open>.iloc\<close> on an empty frame.
\<close>

text \<open>\<open>Series.min\<close> and \<open>Series.max\<close> of the dates skip NaT and give NaT when nothing is left.\<close>

definition date_min :: "timestamp option list \<Rightarrow> timestamp option" where
  "date_min col = (case List.map_filter id col of [] \<Rightarrow> None | t # ts \<Rightarrow> Some (fold min ts t))"

definition date_max :: "timestamp option list \<Rightarrow> timestamp option" where
  "date_max col = (case List.map_filter id col of [] \<Rightarrow> None | t # ts \<Rightarrow> Some (fold max ts t))"

text \<open>
  A column is mixed when it holds a missing cell and a cell with text. The built-in
  \<open>sorted\<close> compares the elements with \<open><\<close>: on the distinct values of a mixed column it
  has to compare the float NaN with a string, which raises; a lone NaN is returned as
  it is, and strings are put in ascending order.
\<close>

definition mixed :: "string option list \<Rightarrow> bool" where
  "mixed col = (None \<in> set col \<and> set col \<noteq> {None})"

definition py_sorted :: "string option list \<Rightarrow> error + string option list" where
  "py_sorted vals =
     (if mixed vals then Inl TypeError
      else if None \<in> set vals then Inr vals
      else Inr (map Some (sort (map the vals))))"

text \<open>The sidebar: the bounds of the date slider and the options of the three selections.\<close>

record controls =
  min_date :: "timestamp option"
  max_date :: "timestamp option"
  regions :: "string option list"
  segments :: "string option list"
  categories :: "string option list"

definition sidebar :: "sale_row list \<Rightarrow> error + controls" where
  "sidebar df =
     (case py_sorted (uniques (map region df)) of
        Inl e \<Rightarrow> Inl e
      | Inr rs \<Rightarrow>
         (case py_sorted (uniques (map customer_segment df)) of
            Inl e \<Rightarrow> Inl e
          | Inr ss \<Rightarrow>
             (case py_sorted (uniques (map product_category df)) of
                Inl e \<Rightarrow> Inl e
              | Inr cs \<Rightarrow>
                  Inr \<lparr>min_date = date_min (map order_date df),
                       max_date = date_max (map order_date df),
                       regions = rs, segments = ss, categories = cs\<rparr>)))"

datatype element =
    Title
  | Caption
  | Sidebar controls
  | Warning
  | Subheader
  | Metric string float64
  | LineChart "(timestamp \<times> float64) list"
  | BarChart "(string \<times> float64) list"
  | Sunburst "sale_row list" float64
  | Dataframe "ranked_row list"
  | Success string float64
  | Info string float64
  | Insight string float64

text \<open>The elements that show a result of an aggregation, a grouping or the ranking.\<close>

fun computed :: "element \<Rightarrow> bool" where
  "computed (Metric _ _) = True"
| "computed (LineChart _) = True"
| "computed (BarChart _) = True"
| "computed (Sunburst _ _) = True"
| "computed (Dataframe _) = True"
| "computed (Success _ _) = True"
| "computed (Info _ _) = True"
| "computed (Insight _ _) = True"
| "computed _ = False"

definition iloc :: "'a list \<Rightarrow> int \<Rightarrow> error + 'a" where
  "iloc df i =
     (if 0 \<le> i \<and> i < int (length df) then Inr (df ! nat i)
      else if i < 0 \<and> - int (length df) \<le> i then Inr (df ! nat (int (length df) + i))
      else Inl IndexError)"

definition kpis :: "sale_row list \<Rightarrow> element list" where
  "kpis df =
     [Metric ''Ingresos'' (total_revenue df),
      Metric ''Utilidad'' (total_profit df),
      Metric ''Unidades vendidas'' (total_units df),
      Metric ''Descuento medio'' (avg_discount df),
      Metric ''Margen bruto medio'' (avg_gross_margin df)]"

definition main ::
  "(timestamp option list \<Rightarrow> nat list) \<Rightarrow> (float64 list \<Rightarrow> nat list) \<Rightarrow> sale list \<Rightarrow> criteria
     \<Rightarrow> error + element list" where
  "main asrt_t asrt_f csv c =
     (case load_data asrt_t csv of
        Inl e \<Rightarrow> Inl e
      | Inr df \<Rightarrow>
         (case sidebar df of
            Inl e \<Rightarrow> Inl e
          | Inr ctl \<Rightarrow>
             (let view = filtered df c
              in if view = [] then Inr [Title, Caption, Sidebar ctl, Warning]
                 else
                   let key_regions = sort_values asrt_f isnan snd False (revenue_by_region view)
                   in case iloc key_regions 0 of
                        Inl e \<Rightarrow> Inl e
                      | Inr best_region \<Rightarrow>
                         (case iloc key_regions (- 1) of
                            Inl e \<Rightarrow> Inl e
                          | Inr worst_region \<Rightarrow>
                             (case iloc (sort_values asrt_f isnan snd False
                                           (margin_by_category view)) 0 of
                                Inl e \<Rightarrow> Inl e
                              | Inr top_margin \<Rightarrow>
                                  Inr ([Title, Caption, Sidebar ctl, Subheader] @ kpis view @
                                       [LineChart (revenue_by_month view),
                                        BarChart (margin_by_category view),
                                        BarChart (revenue_by_region view),
                                        Sunburst view (avg_gross_margin view),
                                        Dataframe (rank asrt_f view (total_revenue view) 15),
                                        Success (fst best_region) (snd best_region),
                                        Info (fst worst_region) (snd worst_region),
                                        Insight (fst top_margin) (snd top_margin),
                                        Caption]))))))"

section \<open>Example data\<close>

text \<open>
  The three rows of the specification's end-to-end scenario (the fields it leaves open
  are filled in), in an order that is not yet sorted, and criteria that select the
  region North.
\<close>

definition row_a :: sale where
  "row_a = \<lparr>order_date = Some (2024, 1, 15, 0), region = Some ''North'',
     customer_segment = Some ''Retail'', product_category = Some ''Tools'',
     sub_category = Some ''Saws'',
     revenue = Fin 100, profit = Fin 20, units = Fin 10, discount = Fin 0\<rparr>"

definition row_b :: sale where
  "row_b = \<lparr>order_date = Some (2024, 2, 10, 0), region = Some ''South'',
     customer_segment = Some ''Retail'', product_category = Some ''Tools'',
     sub_category = Some ''Saws'',
     revenue = Fin 200, profit = Fin 50, units = Fin 20, discount = Fin 0\<rparr>"

definition row_c :: sale where
  "row_c = \<lparr>order_date = Some (2024, 3, 1, 0), region = Some ''North'',
     customer_segment = Some ''Retail'', product_category = Some ''Tools'',
     sub_category = Some ''Saws'',
     revenue = Fin 50, profit = Fin 5, units = Fin 5, discount = Fin 0\<rparr>"

definition north :: criteria where
  "north = \<lparr>start_date = (2024, 1, 1, 0), end_date = (2024, 12, 31, 0),
     selected_regions = [Some ''North''], selected_segments = [Some ''Retail''],
     selected_categories = [Some ''Tools'']\<rparr>"

text \<open>A row with no revenue and no profit, and a row with a profit and no revenue.\<close>

definition row_zero :: sale where
  "row_zero = row_a\<lparr>revenue := Fin 0, profit := Fin 0, units := Fin 0\<rparr>"

definition row_gift :: sale where
  "row_gift = row_a\<lparr>revenue := Fin 0\<rparr>"

text \<open>A row whose date is missing, and a row whose region is missing.\<close>

definition row_nat :: sale where
  "row_nat = row_b\<lparr>order_date := None\<rparr>"

definition row_nowhere :: sale where
  "row_nowhere = row_a\<lparr>region := None\<rparr>"

text \<open>
  Twenty rows with the date and the revenue of row A, told apart by their discount,
  in the order of the file.
\<close>

definition tied_rows :: "sale list" where
  "tied_rows = map (\<lambda>i. row_a\<lparr>discount := Fin (of_nat i)\<rparr>) [0..<20]"

section \<open>Sorting: what every admissible routine gives\<close>

lemma mset_ins: "mset (ins le p qs) = add_mset p (mset qs)"
  by (induction qs) simp_all

lemma set_ins: "set (ins le p qs) = insert p (set qs)"
  by (induction qs) auto

lemma sorted_ins:
  assumes tot: "\<And>a b. \<not> isna a \<Longrightarrow> \<not> isna b \<Longrightarrow> le a b \<or> le b a"
    and tr: "\<And>a b c. le a b \<Longrightarrow> le b c \<Longrightarrow> le a c"
    and srt: "sorted_wrt (\<lambda>a b. le (fst a) (fst b)) qs"
    and ok: "\<not> isna (fst p)" "\<forall>q \<in> set qs. \<not> isna (fst q)"
  shows "sorted_wrt (\<lambda>a b. le (fst a) (fst b)) (ins le p qs)"
  using srt ok
proof (induction qs)
  case Nil
  then show ?case by simp
next
  case (Cons q qs)
  show ?case
  proof (cases "le (fst p) (fst q)")
    case True
    with Cons.prems show ?thesis by (auto intro: tr)
  next
    case False
    with tot [of "fst p" "fst q"] Cons.prems have "le (fst q) (fst p)" by auto
    with False Cons show ?thesis by (auto simp: set_ins)
  qed
qed

lemma mset_fold_ins: "mset (fold (ins le) ps acc) = mset ps + mset acc"
  by (induction ps arbitrary: acc) (simp_all add: mset_ins)

lemma mset_foldr_ins: "mset (foldr (ins le) ps []) = mset ps"
  by (induction ps) (simp_all add: mset_ins)

lemma sorted_fold_ins:
  assumes tot: "\<And>a b. \<not> isna a \<Longrightarrow> \<not> isna b \<Longrightarrow> le a b \<or> le b a"
    and tr: "\<And>a b c. le a b \<Longrightarrow> le b c \<Longrightarrow> le a c"
  shows "sorted_wrt (\<lambda>a b. le (fst a) (fst b)) acc \<Longrightarrow> \<forall>q \<in> set acc. \<not> isna (fst q) \<Longrightarrow>
    \<forall>q \<in> set ps. \<not> isna (fst q) \<Longrightarrow> sorted_wrt (\<lambda>a b. le (fst a) (fst b)) (fold (ins le) ps acc)"
proof (induction ps arbitrary: acc)
  case Nil
  then show ?case by simp
next
  case (Cons p ps)
  have "sorted_wrt (\<lambda>a b. le (fst a) (fst b)) (ins le p acc)"
    using sorted_ins [of isna le acc p] tot tr Cons.prems by auto
  moreover have "\<forall>q \<in> set (ins le p acc). \<not> isna (fst q)"
    using Cons.prems by (simp add: set_ins)
  ultimately show ?case using Cons.IH [of "ins le p acc"] Cons.prems by simp
qed

lemma sorted_foldr_ins:
  assumes tot: "\<And>a b. \<not> isna a \<Longrightarrow> \<not> isna b \<Longrightarrow> le a b \<or> le b a"
    and tr: "\<And>a b c. le a b \<Longrightarrow> le b c \<Longrightarrow> le a c"
  shows "\<forall>q \<in> set ps. \<not> isna (fst q) \<Longrightarrow> sorted_wrt (\<lambda>a b. le (fst a) (fst b)) (foldr (ins le) ps [])"
proof (induction ps)
  case Nil
  then show ?case by simp
next
  case (Cons p ps)
  have "set (foldr (ins le) ps []) = set ps"
    using mset_foldr_ins [of le ps] by (metis set_mset_mset)
  then show ?case
    using sorted_ins [of isna le "foldr (ins le) ps []" p] tot tr Cons by auto
qed

lemma argsort_from_pairs:
  assumes m: "mset S = mset (zip ks [0..<length ks])"
    and s: "sorted_wrt (\<lambda>a b. le (fst a) (fst b)) S"
  shows "mset (map snd S) = mset [0..<length ks] \<and> sorted_wrt le (map ((!) ks) (map snd S))"
proof -
  have "mset (map snd S) = mset (map snd (zip ks [0..<length ks]))"
    using m by (metis mset_map)
  then have a: "mset (map snd S) = mset [0..<length ks]" by simp
  have "set S = set (zip ks [0..<length ks])"
    using m by (metis set_mset_mset)
  then have "\<forall>p \<in> set S. ks ! snd p = fst p"
    by (auto simp: set_zip)
  then have e: "map ((!) ks) (map snd S) = map fst S"
    by (induction S) auto
  have "sorted_wrt le (map fst S)"
    using s by (simp only: sorted_wrt_map)
  then have "sorted_wrt le (map ((!) ks) (map snd S))"
    by (simp only: e)
  with a show ?thesis by blast
qed

lemma argsort_insertion_ok:
  assumes tot: "\<And>a b. \<not> isna a \<Longrightarrow> \<not> isna b \<Longrightarrow> le a b \<or> le b a"
    and tr: "\<And>a b c. le a b \<Longrightarrow> le b c \<Longrightarrow> le a c"
  shows "argsort_ok le isna (argsort_insertion le)"
  unfolding argsort_ok_def argsort_insertion_def
proof (intro allI impI)
  fix ks :: "'a list"
  assume ok: "\<forall>k \<in> set ks. \<not> isna k"
  have "\<forall>q \<in> set (zip ks [0..<length ks]). \<not> isna (fst q)"
    using ok by (auto dest: set_zip_leftD)
  then have "sorted_wrt (\<lambda>a b. le (fst a) (fst b)) (foldr (ins le) (zip ks [0..<length ks]) [])"
    using sorted_foldr_ins [of isna le] tot tr by blast
  then show "mset (map snd (foldr (ins le) (zip ks [0..<length ks]) [])) = mset [0..<length ks] \<and>
    sorted_wrt le (map ((!) ks) (map snd (foldr (ins le) (zip ks [0..<length ks]) [])))"
    using argsort_from_pairs [OF mset_foldr_ins] by blast
qed

lemma argsort_backward_ok:
  assumes tot: "\<And>a b. \<not> isna a \<Longrightarrow> \<not> isna b \<Longrightarrow> le a b \<or> le b a"
    and tr: "\<And>a b c. le a b \<Longrightarrow> le b c \<Longrightarrow> le a c"
  shows "argsort_ok le isna (argsort_backward le)"
  unfolding argsort_ok_def argsort_backward_def
proof (intro allI impI)
  fix ks :: "'a list"
  assume ok: "\<forall>k \<in> set ks. \<not> isna k"
  have "\<forall>q \<in> set (zip ks [0..<length ks]). \<not> isna (fst q)"
    using ok by (auto dest: set_zip_leftD)
  then have "sorted_wrt (\<lambda>a b. le (fst a) (fst b)) (fold (ins le) (zip ks [0..<length ks]) [])"
    using sorted_fold_ins [of isna le "[]"] tot tr by simp
  moreover have "mset (fold (ins le) (zip ks [0..<length ks]) []) = mset (zip ks [0..<length ks])"
    by (simp add: mset_fold_ins)
  ultimately show "mset (map snd (fold (ins le) (zip ks [0..<length ks]) [])) = mset [0..<length ks] \<and>
    sorted_wrt le (map ((!) ks) (map snd (fold (ins le) (zip ks [0..<length ks]) [])))"
    using argsort_from_pairs by blast
qed

lemma fle_total: "\<not> isnan a \<Longrightarrow> \<not> isnan b \<Longrightarrow> fle a b \<or> fle b a"
  by (cases a; cases b) auto

lemma fle_trans: "fle a b \<Longrightarrow> fle b c \<Longrightarrow> fle a c"
  by (cases a; cases b; cases c) auto

lemma tle_total: "\<not> isnat a \<Longrightarrow> \<not> isnat b \<Longrightarrow> tle a b \<or> tle b a"
  by (auto simp: tle_def isnat_def)

lemma tle_trans: "tle a b \<Longrightarrow> tle b c \<Longrightarrow> tle a c"
  by (auto simp: tle_def split: option.splits)

lemma nth_filter_idx: "map ((!) xs) (filter (\<lambda>i. P (xs ! i)) [0..<length xs]) = filter P xs"
proof -
  have "filter P xs = filter P (map ((!) xs) [0..<length xs])"
    by (simp only: map_nth)
  also have "\<dots> = map ((!) xs) (filter (P \<circ> (!) xs) [0..<length xs])"
    by (simp only: filter_map)
  finally show ?thesis by (simp add: comp_def)
qed

lemma mset_map_nth_perm:
  assumes "mset p = mset [0..<length xs]"
  shows "mset (map ((!) xs) p) = mset xs"
proof -
  have "mset (map ((!) xs) p) = image_mset ((!) xs) (mset p)" by simp
  also have "\<dots> = image_mset ((!) xs) (mset [0..<length xs])" by (simp only: assms)
  also have "\<dots> = mset (map ((!) xs) [0..<length xs])" by simp
  finally show ?thesis by (simp only: map_nth)
qed

lemma nargsort_shape:
  assumes ok: "argsort_ok le isna asrt"
  shows "\<exists>p. nargsort asrt isna asc items = p @ filter (\<lambda>i. isna (items ! i)) [0..<length items]
    \<and> mset p = mset (filter (\<lambda>i. \<not> isna (items ! i)) [0..<length items])
    \<and> sorted_wrt (if asc then le else (\<lambda>a b. le b a)) (map ((!) items) p)"
proof -
  define nn0 where "nn0 = filter (\<lambda>i. \<not> isna (items ! i)) [0..<length items]"
  define nn where "nn = (if asc then nn0 else rev nn0)"
  define non_nans where "non_nans = map ((!) items) nn"
  define indexer where "indexer = map ((!) nn) (asrt non_nans)"
  define p where "p = (if asc then indexer else rev indexer)"
  have unf: "nargsort asrt isna asc items = p @ filter (\<lambda>i. isna (items ! i)) [0..<length items]"
    by (simp add: nargsort_def Let_def p_def indexer_def non_nans_def nn_def nn0_def)
  have "set nn = set nn0" by (simp add: nn_def)
  then have "\<forall>k \<in> set non_nans. \<not> isna k"
    by (auto simp: non_nans_def nn0_def)
  with ok have m: "mset (asrt non_nans) = mset [0..<length non_nans]"
    and s: "sorted_wrt le (map ((!) non_nans) (asrt non_nans))"
    unfolding argsort_ok_def by blast+
  have len: "length non_nans = length nn" by (simp add: non_nans_def)
  have "mset indexer = mset nn"
    unfolding indexer_def using mset_map_nth_perm [of "asrt non_nans" nn] m len by simp
  then have mp: "mset p = mset nn0" by (simp add: p_def nn_def)
  have "set (asrt non_nans) = set [0..<length nn]"
    using m len by (metis set_mset_mset)
  then have "\<forall>j \<in> set (asrt non_nans). j < length nn" by simp
  then have "map ((!) items) indexer = map ((!) non_nans) (asrt non_nans)"
    by (simp add: indexer_def non_nans_def)
  with s have si: "sorted_wrt le (map ((!) items) indexer)" by simp
  have "sorted_wrt (if asc then le else (\<lambda>a b. le b a)) (map ((!) items) p)"
  proof (cases asc)
    case True
    with si show ?thesis by (simp add: p_def)
  next
    case False
    have "sorted_wrt (\<lambda>a b. le b a) (rev (map ((!) items) indexer))"
      using si by (simp only: sorted_wrt_rev)
    with False show ?thesis by (simp add: p_def rev_map)
  qed
  with unf mp show ?thesis unfolding nn0_def by blast
qed

lemma sort_values_shape:
  assumes ok: "argsort_ok le isna asrt"
  shows "\<exists>S. sort_values asrt isna key asc df = S @ filter (\<lambda>r. isna (key r)) df
    \<and> mset S = mset (filter (\<lambda>r. \<not> isna (key r)) df)
    \<and> sorted_wrt (\<lambda>a b. if asc then le (key a) (key b) else le (key b) (key a)) S"
proof -
  let ?items = "map key df"
  let ?idx = "[0..<length df]"
  from nargsort_shape [OF ok, of asc ?items] obtain p where
    u: "nargsort asrt isna asc ?items = p @ filter (\<lambda>i. isna (?items ! i)) [0..<length ?items]"
    and m: "mset p = mset (filter (\<lambda>i. \<not> isna (?items ! i)) [0..<length ?items])"
    and s: "sorted_wrt (if asc then le else (\<lambda>a b. le b a)) (map ((!) ?items) p)"
    by blast
  have na: "filter (\<lambda>i. isna (?items ! i)) ?idx = filter (\<lambda>i. isna (key (df ! i))) ?idx"
    by (rule filter_cong) auto
  have nn: "filter (\<lambda>i. \<not> isna (?items ! i)) ?idx = filter (\<lambda>i. \<not> isna (key (df ! i))) ?idx"
    by (rule filter_cong) auto
  have tail: "map ((!) df) (filter (\<lambda>i. isna (?items ! i)) ?idx) = filter (\<lambda>r. isna (key r)) df"
    unfolding na by (rule nth_filter_idx)
  have unf: "sort_values asrt isna key asc df = map ((!) df) p @ filter (\<lambda>r. isna (key r)) df"
    using u tail by (simp add: sort_values_def)
  have "mset (map ((!) df) p) = image_mset ((!) df) (mset p)" by simp
  also have "\<dots> = mset (map ((!) df) (filter (\<lambda>i. \<not> isna (key (df ! i))) ?idx))"
    using m nn by simp
  also have "\<dots> = mset (filter (\<lambda>r. \<not> isna (key r)) df)"
    using nth_filter_idx [of df "\<lambda>r. \<not> isna (key r)"] by simp
  finally have mS: "mset (map ((!) df) p) = mset (filter (\<lambda>r. \<not> isna (key r)) df)" .
  have "set p = set (filter (\<lambda>i. \<not> isna (?items ! i)) ?idx)"
    using m by (metis length_map set_mset_mset)
  then have "\<forall>i \<in> set p. i < length df" by auto
  then have "map ((!) ?items) p = map key (map ((!) df) p)" by simp
  with s have "sorted_wrt (if asc then le else (\<lambda>a b. le b a)) (map key (map ((!) df) p))"
    by simp
  then have "sorted_wrt (\<lambda>a b. if asc then le (key a) (key b) else le (key b) (key a)) (map ((!) df) p)"
    by (cases asc) (simp_all only: sorted_wrt_map if_True if_False)
  with unf mS show ?thesis by blast
qed

lemma sort_values_mset:
  assumes ok: "argsort_ok le isna asrt"
  shows "mset (sort_values asrt isna key asc df) = mset df"
proof -
  from sort_values_shape [OF ok, of key asc df] obtain S where
    u: "sort_values asrt isna key asc df = S @ filter (\<lambda>r. isna (key r)) df"
    and m: "mset S = mset (filter (\<lambda>r. \<not> isna (key r)) df)"
    by blast
  have "mset (sort_values asrt isna key asc df) =
      filter_mset (\<lambda>r. \<not> isna (key r)) (mset df) + filter_mset (\<lambda>r. isna (key r)) (mset df)"
    using u m by simp
  then show ?thesis by (simp add: multiset_partition [symmetric] add.commute)
qed

lemma sort_values_sorted:
  assumes ok: "argsort_ok le isna asrt"
  shows "sorted_wrt (\<lambda>a b. na_last (if asc then le else (\<lambda>x y. le y x)) isna (key a) (key b))
    (sort_values asrt isna key asc df)"
proof -
  let ?R = "\<lambda>a b. na_last (if asc then le else (\<lambda>x y. le y x)) isna (key a) (key b)"
  from sort_values_shape [OF ok, of key asc df] obtain S where
    u: "sort_values asrt isna key asc df = S @ filter (\<lambda>r. isna (key r)) df"
    and m: "mset S = mset (filter (\<lambda>r. \<not> isna (key r)) df)"
    and s: "sorted_wrt (\<lambda>a b. if asc then le (key a) (key b) else le (key b) (key a)) S"
    by blast
  have "set S = set (filter (\<lambda>r. \<not> isna (key r)) df)"
    using m by (metis set_mset_mset)
  then have nn: "\<forall>a \<in> set S. \<not> isna (key a)" by auto
  have "sorted_wrt ?R S"
    using s nn by (induction S) (auto simp: na_last_def)
  moreover have "sorted_wrt ?R (filter (\<lambda>r. isna (key r)) df)"
    by (induction df) (auto simp: na_last_def)
  moreover have "\<forall>a \<in> set S. \<forall>b \<in> set (filter (\<lambda>r. isna (key r)) df). ?R a b"
    by (auto simp: na_last_def)
  ultimately show ?thesis unfolding u sorted_wrt_append by blast
qed

section \<open>The filter selects the matching rows\<close>

lemma and_series_map: "and_series (map f xs) (map g xs) = map (\<lambda>x. f x \<and> g x) xs"
  by (induction xs) (simp_all add: and_series_def)

lemma loc_map: "loc df (map P df) = filter P df"
  by (induction df) (simp_all add: loc_def)

lemma mask_matches: "mask df c = map (matches c) df"
proof -
  have "mask df c =
    map (\<lambda>r. (((tle (Some (start_date c)) (order_date r) \<and> tle (order_date r) (Some (end_date c)))
      \<and> region r \<in> set (selected_regions c))
      \<and> customer_segment r \<in> set (selected_segments c))
      \<and> product_category r \<in> set (selected_categories c)) df"
    unfolding mask_def ge_series_def le_series_def isin_def map_map comp_def
    by (simp only: and_series_map)
  also have "\<dots> = map (matches c) df"
    by (rule map_cong) (auto simp: matches_def)
  finally show ?thesis .
qed

lemma filtered_filter: "filtered df c = filter (matches c) df"
  by (simp add: filtered_def mask_matches loc_map)

lemma tle_Some_left: "tle (Some s) d = (\<exists>t. d = Some t \<and> s \<le> t)"
  by (cases d) (simp_all add: tle_def)

lemma tle_Some_right: "tle d (Some t) = (\<exists>s. d = Some s \<and> s \<le> t)"
  by (cases d) (simp_all add: tle_def)

text \<open>
  C1. The boolean mask built column by column and applied with \<open>loc\<close> keeps exactly the
  rows that satisfy the predicate of the specification, in the order of the data set:
  the view is the data set filtered by \<open>matches\<close>, hence a subsequence of it, and a row
  is in the view if and only if it is a row of the data set whose date lies between
  the two bounds, both included, and whose region, customer segment and product
  category are among the selected ones.
\<close>

theorem filtered_correct:
  "filtered df c = filter (matches c) df
   \<and> subseq (filtered df c) df
   \<and> (r \<in> set (filtered df c) \<longleftrightarrow>
        r \<in> set df
        \<and> (\<exists>d. order_date r = Some d \<and> start_date c \<le> d \<and> d \<le> end_date c)
        \<and> region r \<in> set (selected_regions c)
        \<and> customer_segment r \<in> set (selected_segments c)
        \<and> product_category r \<in> set (selected_categories c))"
proof -
  have "matches c r \<longleftrightarrow>
      (\<exists>d. order_date r = Some d \<and> start_date c \<le> d \<and> d \<le> end_date c)
      \<and> region r \<in> set (selected_regions c)
      \<and> customer_segment r \<in> set (selected_segments c)
      \<and> product_category r \<in> set (selected_categories c)"
    unfolding matches_def tle_Some_left tle_Some_right by auto
  then show ?thesis
    by (simp add: filtered_filter)
qed

theorem filtered_correct_witness:
  "filtered (map derive [row_a, row_b, row_c]) north = [derive row_a, derive row_c]
   \<and> subseq [derive row_a, derive row_c] (map derive [row_a, row_b, row_c])
   \<and> derive row_b \<notin> set (filtered (map derive [row_a, row_b, row_c]) north)"
  using filtered_correct [of "map derive [row_a, row_b, row_c]" north "derive row_b"]
  by (simp add: matches_def tle_def north_def row_a_def row_b_def row_c_def derive_def
      sale.defs sale_row.defs)

text \<open>
  C5. The three selections are allow-lists: as soon as the selected regions, the
  selected segments or the selected categories are empty, the view is empty, whatever
  the data set and the other criteria are.
\<close>

theorem allow_list_empty:
  "selected_regions c = [] \<or> selected_segments c = [] \<or> selected_categories c = []
   \<Longrightarrow> filtered df c = []"
  by (auto simp: filtered_filter matches_def)

theorem allow_list_empty_witness:
  "selected_regions (north\<lparr>selected_regions := []\<rparr>) = []
   \<and> filtered (map derive [row_a, row_b, row_c]) (north\<lparr>selected_regions := []\<rparr>) = []"
  using allow_list_empty [of "north\<lparr>selected_regions := []\<rparr>" "map derive [row_a, row_b, row_c]"]
  by simp

section \<open>Grouped aggregates\<close>

lemma Fin_add: "Fin a + Fin b = Fin (a + b)"
  by (simp add: plus_float64_def)

lemma derived_fields:
  "order_date (derive r) = order_date r" "region (derive r) = region r"
  "customer_segment (derive r) = customer_segment r"
  "product_category (derive r) = product_category r"
  "sub_category (derive r) = sub_category r"
  "revenue (derive r) = revenue r" "profit (derive r) = profit r"
  "units (derive r) = units r" "discount (derive r) = discount r"
  "month (derive r) = map_option month_start (order_date r)"
  "gross_margin (derive r) = fdiv (profit r) (revenue r)"
  by (simp_all add: derive_def sale.defs sale_row.defs)

lemma set_uniques_from: "set (uniques_from seen xs) = set xs - set seen"
  by (induction xs arbitrary: seen) auto

lemma distinct_uniques_from: "distinct (uniques_from seen xs)"
  by (induction xs arbitrary: seen) (auto simp: set_uniques_from)

lemma set_uniques: "set (uniques xs) = set xs"
  by (simp add: uniques_def set_uniques_from)

lemma distinct_uniques: "distinct (uniques xs)"
  by (simp add: uniques_def distinct_uniques_from)

lemma set_map_filter_keys: "set (List.map_filter key df) = {k. Some k \<in> key ` set df}"
  by (induction df) (auto simp: List.map_filter_simps split: option.splits)

lemma groupby_keys: "map fst (groupby key col agg df) = sort (uniques (List.map_filter key df))"
  by (simp add: groupby_def comp_def)

lemma groupby_keys_sorted:
  "map fst (groupby key col agg df) = sorted_list_of_set {k. Some k \<in> key ` set df}"
proof -
  let ?xs = "List.map_filter key df"
  have "sort (uniques ?xs) = sorted_list_of_set (set ?xs)"
  proof (rule sorted_distinct_set_unique)
    show "sorted (sort (uniques ?xs))" by simp
    show "distinct (sort (uniques ?xs))" by (simp add: distinct_uniques)
    show "sorted (sorted_list_of_set (set ?xs))" by simp
    show "distinct (sorted_list_of_set (set ?xs))" by simp
    show "set (sort (uniques ?xs)) = set (sorted_list_of_set (set ?xs))"
      by (simp add: set_uniques)
  qed
  then show ?thesis
    unfolding groupby_keys set_map_filter_keys .
qed

lemma groupby_keys_strict: "sorted_wrt (<) (map fst (groupby key col agg df))"
  unfolding groupby_keys strict_sorted_iff by (simp add: distinct_uniques)

text \<open>
  C9. Each of the three grouped aggregates (revenue by month, mean gross margin by
  product category, revenue by region) lists its groups by ascending key, each key
  once: the keys are the sorted list of the set of keys that occur in the view (of
  the keys that are not missing: a row without a key is in no group). The list depends
  on that set only, so it is the same for every call and every order of the rows, and
  it is not the order in which the keys are first seen.
\<close>

theorem groups_in_key_order:
  "map fst (revenue_by_month df) = sorted_list_of_set {m. Some m \<in> month ` set df}
   \<and> map fst (margin_by_category df)
       = sorted_list_of_set {k. Some k \<in> product_category ` set df}
   \<and> map fst (revenue_by_region df) = sorted_list_of_set {k. Some k \<in> region ` set df}
   \<and> sorted_wrt (<) (map fst (revenue_by_month df))
   \<and> sorted_wrt (<) (map fst (margin_by_category df))
   \<and> sorted_wrt (<) (map fst (revenue_by_region df))"
proof (intro conjI)
  show "map fst (revenue_by_month df) = sorted_list_of_set {m. Some m \<in> month ` set df}"
    unfolding revenue_by_month_def by (rule groupby_keys_sorted)
  show "map fst (margin_by_category df)
      = sorted_list_of_set {k. Some k \<in> product_category ` set df}"
    unfolding margin_by_category_def by (rule groupby_keys_sorted)
  show "map fst (revenue_by_region df) = sorted_list_of_set {k. Some k \<in> region ` set df}"
    unfolding revenue_by_region_def by (rule groupby_keys_sorted)
  show "sorted_wrt (<) (map fst (revenue_by_month df))"
    unfolding revenue_by_month_def by (rule groupby_keys_strict)
  show "sorted_wrt (<) (map fst (margin_by_category df))"
    unfolding margin_by_category_def by (rule groupby_keys_strict)
  show "sorted_wrt (<) (map fst (revenue_by_region df))"
    unfolding revenue_by_region_def by (rule groupby_keys_strict)
qed

theorem groups_in_key_order_witness:
  "map fst (revenue_by_region (map derive [row_b, row_a, row_c])) = [''North'', ''South'']
   \<and> uniques (map region (map derive [row_b, row_a, row_c])) = [Some ''South'', Some ''North'']"
proof -
  let ?df = "map derive [row_b, row_a, row_c]"
  have r: "map region ?df = [Some ''South'', Some ''North'', Some ''North'']"
    by (simp add: derived_fields row_a_def row_b_def row_c_def)
  have k: "{k. Some k \<in> region ` set ?df} = set [''South'', ''North'', ''North'']"
    by (auto simp: derived_fields row_a_def row_b_def row_c_def)
  have "map fst (revenue_by_region ?df) = sorted_list_of_set {k. Some k \<in> region ` set ?df}"
    using groups_in_key_order [of ?df] by simp
  also have "\<dots> = sort (remdups [''South'', ''North'', ''North''])"
    unfolding k by (rule sorted_list_of_set_sort_remdups)
  also have "\<dots> = [''North'', ''South'']"
    by simp
  finally show ?thesis
    unfolding r by (simp add: uniques_def)
qed

section \<open>The loaded data set and the sidebar\<close>

lemma load_data_empty: "load_data asrt [] = Inl AttributeError"
  by (simp add: load_data_def)

lemma load_data_rows:
  "csv \<noteq> [] \<Longrightarrow> load_data asrt csv = Inr (map derive (sort_values asrt isnat order_date True csv))"
  by (simp add: load_data_def)

lemma load_data_Inr:
  "load_data asrt csv = Inr df
   \<Longrightarrow> csv \<noteq> [] \<and> df = map derive (sort_values asrt isnat order_date True csv)"
  by (auto simp: load_data_def Let_def split: if_splits)

lemma load_data_Inl: "load_data asrt csv = Inl e \<Longrightarrow> e = AttributeError \<and> csv = []"
  by (auto simp: load_data_def Let_def split: if_splits)

lemma loaded_row: "load_data asrt csv = Inr df \<Longrightarrow> r \<in> set df \<Longrightarrow> \<exists>s. r = derive s"
  by (auto dest!: load_data_Inr)

lemma loaded_margin:
  "load_data asrt csv = Inr df \<Longrightarrow> r \<in> set df \<Longrightarrow> gross_margin r = fdiv (profit r) (revenue r)"
  by (auto dest!: loaded_row simp: derived_fields)

lemma sort_values_set:
  assumes "argsort_ok le isna asrt"
  shows "set (sort_values asrt isna key asc df) = set df"
  using sort_values_mset [OF assms, of key asc df] by (metis set_mset_mset)

lemma sort_values_length:
  assumes "argsort_ok le isna asrt"
  shows "length (sort_values asrt isna key asc df) = length df"
  using sort_values_mset [OF assms, of key asc df] by (metis size_mset)

lemma load_data_mset:
  assumes "argsort_ok tle isnat asrt" and "load_data asrt csv = Inr df"
  shows "mset df = image_mset derive (mset csv)"
  using load_data_Inr [OF assms(2)] by (simp add: sort_values_mset [OF assms(1)])

lemma load_data_set:
  assumes "argsort_ok tle isnat asrt" and "load_data asrt csv = Inr df"
  shows "set df = derive ` set csv"
  using load_data_Inr [OF assms(2)] by (simp add: sort_values_set [OF assms(1)])

lemma insertion_ok_dates: "argsort_ok tle isnat (argsort_insertion tle)"
  using argsort_insertion_ok [of isnat tle] tle_total tle_trans by blast

lemma insertion_ok_floats: "argsort_ok fle isnan (argsort_insertion fle)"
  using argsort_insertion_ok [of isnan fle] fle_total fle_trans by blast

lemma backward_ok_dates: "argsort_ok tle isnat (argsort_backward tle)"
  using argsort_backward_ok [of isnat tle] tle_total tle_trans by blast

lemma backward_ok_floats: "argsort_ok fle isnan (argsort_backward fle)"
  using argsort_backward_ok [of isnan fle] fle_total fle_trans by blast

lemma py_sorted_Inl: "py_sorted vals = Inl e \<Longrightarrow> e = TypeError \<and> mixed vals"
  by (auto simp: py_sorted_def split: if_splits)

lemma mixed_uniques: "mixed (uniques col) = mixed col"
  by (simp add: mixed_def set_uniques)

lemma sidebar_Inl:
  assumes "sidebar df = Inl e"
  shows "e = TypeError
    \<and> (mixed (map region df) \<or> mixed (map customer_segment df) \<or> mixed (map product_category df))"
  using assms py_sorted_Inl [of "uniques (map region df)"]
    py_sorted_Inl [of "uniques (map customer_segment df)"]
    py_sorted_Inl [of "uniques (map product_category df)"]
  unfolding sidebar_def mixed_uniques by (auto split: sum.splits)

lemma sidebar_mixed:
  "mixed (map region df) \<or> mixed (map customer_segment df) \<or> mixed (map product_category df)
   \<Longrightarrow> \<exists>e. sidebar df = Inl e"
  unfolding sidebar_def py_sorted_def mixed_uniques by (auto split: sum.splits)

lemma mixed_loaded:
  assumes "set df = derive ` set csv"
  shows "mixed (map region df) = mixed (map region csv)"
    "mixed (map customer_segment df) = mixed (map customer_segment csv)"
    "mixed (map product_category df) = mixed (map product_category csv)"
  using assms by (simp_all add: mixed_def image_image derived_fields)

lemma example_load:
  "load_data (argsort_insertion tle) [row_c, row_a, row_b] = Inr (map derive [row_a, row_b, row_c])"
  by (simp add: load_data_def sort_values_def nargsort_def argsort_insertion_def
      row_a_def row_b_def row_c_def isnat_def tle_def upt_rec)

lemma example_load_nat:
  "load_data (argsort_insertion tle) [row_nat, row_a] = Inr [derive row_a, derive row_nat]"
  by (simp add: load_data_def sort_values_def nargsort_def argsort_insertion_def
      row_nat_def row_a_def row_b_def isnat_def tle_def upt_rec)

lemma example_load_zero:
  "load_data (argsort_insertion tle) [row_zero, row_a, row_c]
   = Inr (map derive [row_zero, row_a, row_c])"
  by (simp add: load_data_def sort_values_def nargsort_def argsort_insertion_def
      row_zero_def row_a_def row_c_def isnat_def tle_def upt_rec)

lemma example_load_gift:
  "load_data (argsort_insertion tle) [row_gift, row_c] = Inr (map derive [row_gift, row_c])"
  by (simp add: load_data_def sort_values_def nargsort_def argsort_insertion_def
      row_gift_def row_a_def row_c_def isnat_def tle_def upt_rec)

lemma example_view_gift:
  "filtered (map derive [row_gift, row_c]) north = map derive [row_gift, row_c]"
  by (simp add: filtered_filter matches_def derived_fields tle_def north_def
      row_gift_def row_a_def row_c_def)

lemma example_view_zero:
  "filtered (map derive [row_zero, row_a, row_c]) north = map derive [row_zero, row_a, row_c]"
  by (simp add: filtered_filter matches_def derived_fields tle_def north_def
      row_zero_def row_a_def row_c_def)

lemma example_sidebar:
  "sidebar (map derive [row_a, row_b, row_c])
   = Inr \<lparr>min_date = Some (2024, 1, 15, 0), max_date = Some (2024, 3, 1, 0),
          regions = [Some ''North'', Some ''South''], segments = [Some ''Retail''],
          categories = [Some ''Tools'']\<rparr>"
  by (simp add: sidebar_def py_sorted_def mixed_def uniques_def date_min_def date_max_def
      List.map_filter_simps derived_fields row_a_def row_b_def row_c_def min_def max_def)

section \<open>The empty view\<close>

text \<open>
  C6. The view exists once the data set is loaded and the sidebar is drawn. When it is
  empty, \<open>main\<close> returns normally, and the page is the title, the caption, the sidebar
  and the warning that there is no data. Of a page that \<open>main\<close> returns, the warning is
  an element exactly when the view is empty, and a page with the warning holds no
  indicator, chart, table or insight: nothing that is aggregated, grouped or ranked.
  (On a data set without rows there is no view to speak of: \<open>load_data\<close> raises before
  the filter is reached, and so does \<open>main\<close>.)
\<close>

theorem empty_view_short_circuit:
  "(\<forall>df ctl. load_data asrt_t csv = Inr df \<and> sidebar df = Inr ctl \<and> filtered df c = []
       \<longrightarrow> main asrt_t asrt_f csv c = Inr [Title, Caption, Sidebar ctl, Warning])
   \<and> (\<forall>df page. load_data asrt_t csv = Inr df \<and> main asrt_t asrt_f csv c = Inr page
       \<longrightarrow> (Warning \<in> set page \<longleftrightarrow> filtered df c = [])
           \<and> (Warning \<in> set page \<longrightarrow> (\<forall>e \<in> set page. \<not> computed e)))
   \<and> (\<forall>e. load_data asrt_t csv = Inl e \<longrightarrow> main asrt_t asrt_f csv c = Inl e)"
proof (intro conjI allI impI)
  fix df ctl
  assume "load_data asrt_t csv = Inr df \<and> sidebar df = Inr ctl \<and> filtered df c = []"
  then show "main asrt_t asrt_f csv c = Inr [Title, Caption, Sidebar ctl, Warning]"
    by (simp add: main_def)
next
  fix df page
  assume a: "load_data asrt_t csv = Inr df \<and> main asrt_t asrt_f csv c = Inr page"
  then obtain ctl where s: "sidebar df = Inr ctl"
    by (auto simp: main_def split: sum.splits)
  show w: "Warning \<in> set page \<longleftrightarrow> filtered df c = []"
    using a s by (auto simp: main_def Let_def kpis_def split: sum.splits if_splits)
  assume "Warning \<in> set page"
  with w a s have "page = [Title, Caption, Sidebar ctl, Warning]"
    by (auto simp: main_def)
  then show "\<forall>e \<in> set page. \<not> computed e"
    by simp
next
  fix e assume "load_data asrt_t csv = Inl e"
  then show "main asrt_t asrt_f csv c = Inl e"
    by (simp add: main_def)
qed

theorem empty_view_short_circuit_witness:
  "load_data (argsort_insertion tle) [row_c, row_a, row_b] = Inr (map derive [row_a, row_b, row_c])
   \<and> filtered (map derive [row_a, row_b, row_c]) (north\<lparr>selected_regions := []\<rparr>) = []
   \<and> main (argsort_insertion tle) (argsort_insertion fle) [row_c, row_a, row_b]
        (north\<lparr>selected_regions := []\<rparr>)
      = Inr [Title, Caption,
             Sidebar \<lparr>min_date = Some (2024, 1, 15, 0), max_date = Some (2024, 3, 1, 0),
               regions = [Some ''North'', Some ''South''], segments = [Some ''Retail''],
               categories = [Some ''Tools'']\<rparr>,
             Warning]"
proof -
  have e: "filtered (map derive [row_a, row_b, row_c]) (north\<lparr>selected_regions := []\<rparr>) = []"
    by (simp add: filtered_filter matches_def)
  from example_load example_sidebar e
    empty_view_short_circuit [of "argsort_insertion tle" "[row_c, row_a, row_b]"
      "north\<lparr>selected_regions := []\<rparr>" "argsort_insertion fle"]
  show ?thesis by blast
qed

section \<open>Non-finite values\<close>

lemma nonfinite_add_left: "\<not> isfinite a \<Longrightarrow> \<not> isfinite (a + b)"
  by (cases a; cases b) (simp_all add: plus_float64_def)

lemma nonfinite_add_right: "\<not> isfinite b \<Longrightarrow> \<not> isfinite (a + b)"
  by (cases a; cases b) (simp_all add: plus_float64_def)

lemma nonfinite_sum_list: "m \<in> set ys \<Longrightarrow> \<not> isfinite m \<Longrightarrow> \<not> isfinite (sum_list ys)"
  by (induction ys) (auto simp: nonfinite_add_left nonfinite_add_right)

lemma nonfinite_fdiv: "\<not> isfinite a \<Longrightarrow> \<not> isfinite (fdiv a b)"
  by (cases a; cases b) simp_all

lemma fdiv_by_zero: "\<not> isfinite (fdiv a (Fin 0))"
  by (cases a) simp_all

lemma sum_list_fill_zero: "sum_list (map (\<lambda>x. if isnan x then 0 else x) xs) = sum_list (filter (\<lambda>x. \<not> isnan x) xs)"
  by (induction xs) simp_all

lemma count_not_nan: "length xs - length (filter isnan xs) = length (filter (\<lambda>x. \<not> isnan x) xs)"
  using sum_length_filter_compl [of isnan xs] by simp

lemma nanmean_defined:
  "nanmean xs = fdiv (sum_list (filter (\<lambda>x. \<not> isnan x) xs))
                     (Fin (of_nat (length (filter (\<lambda>x. \<not> isnan x) xs))))"
proof (cases "filter (\<lambda>x. \<not> isnan x) xs = []")
  case True
  then show ?thesis
    by (simp add: nanmean_def Let_def sum_list_fill_zero count_not_nan zero_float64_def)
next
  case False
  then show ?thesis
    by (simp add: nanmean_def Let_def sum_list_fill_zero count_not_nan)
qed

lemma isinf_not_nan: "isinf m \<Longrightarrow> \<not> isnan m \<and> \<not> isfinite m"
  by (cases m) simp_all

lemma nanmean_inf:
  assumes "m \<in> set xs" "isinf m"
  shows "\<not> isfinite (nanmean xs)"
proof -
  have "m \<in> set (filter (\<lambda>x. \<not> isnan x) xs)"
    using assms isinf_not_nan [of m] by simp
  moreover have "\<not> isfinite m"
    using assms isinf_not_nan [of m] by simp
  ultimately have "\<not> isfinite (sum_list (filter (\<lambda>x. \<not> isnan x) xs))"
    by (rule nonfinite_sum_list)
  then have h: "\<not> isfinite (fdiv (sum_list (filter (\<lambda>x. \<not> isnan x) xs))
                     (Fin (of_nat (length (filter (\<lambda>x. \<not> isnan x) xs)))))"
    by (rule nonfinite_fdiv)
  show ?thesis
    by (subst nanmean_defined) (rule h)
qed

lemma assigned_fields:
  "order_date (assign t r) = order_date r" "region (assign t r) = region r"
  "customer_segment (assign t r) = customer_segment r"
  "product_category (assign t r) = product_category r"
  "sub_category (assign t r) = sub_category r"
  "revenue (assign t r) = revenue r" "profit (assign t r) = profit r"
  "units (assign t r) = units r" "discount (assign t r) = discount r"
  "month (assign t r) = month r" "gross_margin (assign t r) = gross_margin r"
  "revenue_per_unit (assign t r) = fdiv (revenue r) (units r)"
  "contribution (assign t r) = fdiv (revenue r) t"
  "sale_row.truncate (assign t r) = r"
  by (simp_all add: assign_def sale_row.defs ranked_row.defs)

lemma derived_truncate: "sale.truncate (derive r) = r"
  by (simp add: derive_def sale.defs sale_row.defs)

lemma iloc_first: "df \<noteq> [] \<Longrightarrow> iloc df 0 = Inr (df ! 0)"
  by (simp add: iloc_def)

lemma iloc_last: "df \<noteq> [] \<Longrightarrow> iloc df (- 1) = Inr (df ! (length df - 1))"
proof -
  assume "df \<noteq> []"
  then have p: "0 < length df" by simp
  then have "nat (int (length df) + - 1) = length df - 1" by linarith
  moreover from p have "- int (length df) \<le> - 1" by linarith
  ultimately show ?thesis by (simp add: iloc_def)
qed

lemma iloc_Nil: "iloc [] i = Inl IndexError"
  by (simp add: iloc_def)

lemma groupby_empty: "groupby key col agg df = [] \<longleftrightarrow> (\<forall>r \<in> set df. key r = None)"
proof -
  have "groupby key col agg df = [] \<longleftrightarrow> set (map fst (groupby key col agg df)) = {}"
    by simp
  also have "\<dots> \<longleftrightarrow> {k. Some k \<in> key ` set df} = {}"
    unfolding groupby_keys by (simp add: set_uniques set_map_filter_keys)
  also have "\<dots> \<longleftrightarrow> (\<forall>r \<in> set df. key r = None)"
  proof
    assume e: "{k. Some k \<in> key ` set df} = {}"
    show "\<forall>r \<in> set df. key r = None"
    proof
      fix r assume "r \<in> set df"
      then have "key r \<in> key ` set df" by simp
      with e show "key r = None" by (cases "key r") auto
    qed
  next
    assume "\<forall>r \<in> set df. key r = None"
    then show "{k. Some k \<in> key ` set df} = {}" by auto
  qed
  finally show ?thesis .
qed

lemma sidebar_not_mixed:
  assumes "sidebar df = Inr ctl"
  shows "\<not> mixed (map region df) \<and> \<not> mixed (map customer_segment df)
    \<and> \<not> mixed (map product_category df)"
  using assms sidebar_mixed [of df] by auto

lemma all_missing:
  assumes "\<not> mixed (map key df)" and "r \<in> set df" and "key r = None"
  shows "set (map key df) = {None}"
proof -
  from assms(2,3) have "None \<in> set (map key df)" by force
  with assms(1) show ?thesis by (simp add: mixed_def)
qed

lemma main_Inl:
  assumes t: "argsort_ok tle isnat asrt_t" and f: "argsort_ok fle isnan asrt_f"
    and m: "main asrt_t asrt_f csv c = Inl e"
  shows "(e = AttributeError \<and> csv = [])
    \<or> (e = TypeError \<and> (mixed (map region csv) \<or> mixed (map customer_segment csv)
          \<or> mixed (map product_category csv)))
    \<or> (e = IndexError \<and> (set (map region csv) = {None} \<or> set (map product_category csv) = {None}))"
proof (cases "load_data asrt_t csv")
  case (Inl a)
  with m have "a = e" by (simp add: main_def)
  with Inl load_data_Inl [of asrt_t csv e] show ?thesis by simp
next
  case (Inr df)
  note s = load_data_set [OF t Inr]
  show ?thesis
  proof (cases "sidebar df")
    case (Inl a)
    with m Inr have "a = e" by (simp add: main_def)
    with Inl sidebar_Inl [of df e] show ?thesis by (simp add: mixed_loaded [OF s])
  next
    case ctl: (Inr ctl)
    let ?view = "filtered df c"
    let ?kr = "sort_values asrt_f isnan snd False (revenue_by_region ?view)"
    let ?tm = "sort_values asrt_f isnan snd False (margin_by_category ?view)"
    note nm = sidebar_not_mixed [OF ctl]
    have cols: "set (map region df) = set (map region csv)"
      "set (map product_category df) = set (map product_category csv)"
      by (simp_all add: s image_image derived_fields)
    from m Inr ctl have ne: "?view \<noteq> []"
      by (auto simp: main_def)
    have g: "revenue_by_region ?view = [] \<or> margin_by_category ?view = []"
    proof (rule ccontr)
      assume "\<not> (revenue_by_region ?view = [] \<or> margin_by_category ?view = [])"
      then have "?kr \<noteq> []" and "?tm \<noteq> []"
        using sort_values_length [OF f, of snd False "revenue_by_region ?view"]
          sort_values_length [OF f, of snd False "margin_by_category ?view"] by auto
      then have "\<exists>page. main asrt_t asrt_f csv c = Inr page"
        using Inr ctl ne by (simp add: main_def Let_def iloc_first iloc_last)
      with m show False by simp
    qed
    have e: "e = IndexError"
    proof (cases "?kr = []")
      case True
      then have "main asrt_t asrt_f csv c = Inl IndexError"
        using Inr ctl ne by (simp add: main_def Let_def iloc_Nil)
      with m show ?thesis by simp
    next
      case False
      with g have "?tm = []"
        using sort_values_length [OF f, of snd False "revenue_by_region ?view"]
          sort_values_length [OF f, of snd False "margin_by_category ?view"] by auto
      then have "main asrt_t asrt_f csv c = Inl IndexError"
        using Inr ctl ne False by (simp add: main_def Let_def iloc_Nil iloc_first iloc_last)
      with m show ?thesis by simp
    qed
    from ne obtain r where r: "r \<in> set ?view" by (cases ?view) auto
    then have rd: "r \<in> set df" by (simp add: filtered_filter)
    from g show ?thesis
    proof
      assume "revenue_by_region ?view = []"
      with r have "region r = None"
        unfolding revenue_by_region_def groupby_empty by blast
      with nm rd have "set (map region df) = {None}"
        using all_missing [of region df r] by blast
      with e cols show ?thesis by simp
    next
      assume "margin_by_category ?view = []"
      with r have "product_category r = None"
        unfolding margin_by_category_def groupby_empty by blast
      with nm rd have "set (map product_category df) = {None}"
        using all_missing [of product_category df r] by blast
      with e cols show ?thesis by simp
    qed
  qed
qed

lemma main_returns:
  assumes t: "argsort_ok tle isnat asrt_t" and f: "argsort_ok fle isnan asrt_f"
    and ne: "csv \<noteq> []"
    and p: "\<forall>r \<in> set csv. region r \<noteq> None \<and> customer_segment r \<noteq> None \<and> product_category r \<noteq> None"
  shows "\<exists>page. main asrt_t asrt_f csv c = Inr page"
proof (rule ccontr)
  assume "\<not> (\<exists>page. main asrt_t asrt_f csv c = Inr page)"
  then obtain e where "main asrt_t asrt_f csv c = Inl e"
    by (cases "main asrt_t asrt_f csv c") auto
  note m = main_Inl [OF t f this]
  from p have n: "None \<notin> set (map region csv)" "None \<notin> set (map customer_segment csv)"
    "None \<notin> set (map product_category csv)"
    by force+
  then have "\<not> mixed (map region csv)" "\<not> mixed (map customer_segment csv)"
    "\<not> mixed (map product_category csv)"
    unfolding mixed_def by blast+
  moreover from n have "set (map region csv) \<noteq> {None}" "set (map product_category csv) \<noteq> {None}"
    by blast+
  ultimately show False using m ne by blast
qed

text \<open>
  C10. The mean gross margin of a non-empty filtered view is the sum of the margins
  that are not NaN divided by their number: a NaN margin counts neither in the
  numerator nor in the denominator (when every margin is NaN the quotient is
  \<open>0 / 0\<close>, that is NaN). An infinite margin is not skipped, and one such row makes the
  mean non-finite. In a view of the loaded data a row without revenue and without
  profit has a NaN margin, and a row without revenue whose profit is a finite number
  other than zero has an infinite one.
\<close>

theorem avg_gross_margin_skips_nan:
  assumes l: "load_data asrt csv = Inr df" and v: "view = filtered df c" and ne: "view \<noteq> []"
  shows "avg_gross_margin view =
      fdiv (sum_list (filter (\<lambda>x. \<not> isnan x) (map gross_margin view)))
           (Fin (of_nat (length (filter (\<lambda>x. \<not> isnan x) (map gross_margin view)))))
    \<and> (\<forall>r \<in> set view. isinf (gross_margin r) \<longrightarrow> \<not> isfinite (avg_gross_margin view))
    \<and> (\<forall>r \<in> set view. revenue r = Fin 0 \<and> profit r = Fin 0 \<longrightarrow> isnan (gross_margin r))
    \<and> (\<forall>r \<in> set view. \<forall>p. revenue r = Fin 0 \<and> profit r = Fin p \<and> p \<noteq> 0
          \<longrightarrow> isinf (gross_margin r))"
proof (intro conjI ballI allI impI)
  show "avg_gross_margin view =
      fdiv (sum_list (filter (\<lambda>x. \<not> isnan x) (map gross_margin view)))
           (Fin (of_nat (length (filter (\<lambda>x. \<not> isnan x) (map gross_margin view)))))"
    unfolding avg_gross_margin_def by (rule nanmean_defined)
next
  fix r assume "r \<in> set view" "isinf (gross_margin r)"
  then have "gross_margin r \<in> set (map gross_margin view)" by simp
  then show "\<not> isfinite (avg_gross_margin view)"
    unfolding avg_gross_margin_def using \<open>isinf (gross_margin r)\<close> by (rule nanmean_inf)
next
  fix r assume r: "r \<in> set view" and z: "revenue r = Fin 0 \<and> profit r = Fin 0"
  from r v have "r \<in> set df" by (simp add: filtered_filter)
  with l have "gross_margin r = fdiv (profit r) (revenue r)" by (rule loaded_margin)
  with z show "isnan (gross_margin r)" by simp
next
  fix r p assume r: "r \<in> set view" and z: "revenue r = Fin 0 \<and> profit r = Fin p \<and> p \<noteq> 0"
  from r v have "r \<in> set df" by (simp add: filtered_filter)
  with l have "gross_margin r = fdiv (profit r) (revenue r)" by (rule loaded_margin)
  with z show "isinf (gross_margin r)" by simp
qed

theorem avg_gross_margin_skips_nan_witness:
  "load_data (argsort_insertion tle) [row_zero, row_a, row_c]
     = Inr (map derive [row_zero, row_a, row_c])
   \<and> filtered (map derive [row_zero, row_a, row_c]) north \<noteq> []
   \<and> map gross_margin (filtered (map derive [row_zero, row_a, row_c]) north)
       = [NaN, Fin (1 / 5), Fin (1 / 10)]
   \<and> avg_gross_margin (filtered (map derive [row_zero, row_a, row_c]) north) = Fin (3 / 20)
   \<and> load_data (argsort_insertion tle) [row_gift, row_c] = Inr (map derive [row_gift, row_c])
   \<and> map gross_margin (filtered (map derive [row_gift, row_c]) north) = [PosInf, Fin (1 / 10)]
   \<and> \<not> isfinite (avg_gross_margin (filtered (map derive [row_gift, row_c]) north))"
proof -
  let ?view = "filtered (map derive [row_zero, row_a, row_c]) north"
  have v: "?view = map derive [row_zero, row_a, row_c]"
    by (simp only: example_view_zero)
  have ne: "?view \<noteq> []" unfolding v by simp
  have m: "map gross_margin ?view = [NaN, Fin (1 / 5), Fin (1 / 10)]"
    unfolding v by (simp add: derived_fields row_zero_def row_a_def row_c_def)
  from avg_gross_margin_skips_nan [OF example_load_zero refl ne]
  have "avg_gross_margin ?view =
      fdiv (sum_list (filter (\<lambda>x. \<not> isnan x) (map gross_margin ?view)))
           (Fin (of_nat (length (filter (\<lambda>x. \<not> isnan x) (map gross_margin ?view)))))"
    by blast
  also have "\<dots> = Fin (3 / 20)"
    unfolding m by (simp add: Fin_add zero_float64_def)
  finally have a: "avg_gross_margin ?view = Fin (3 / 20)" .
  let ?gift = "filtered (map derive [row_gift, row_c]) north"
  have g: "?gift = map derive [row_gift, row_c]"
    by (simp only: example_view_gift)
  have gne: "?gift \<noteq> []" unfolding g by simp
  have gm: "map gross_margin ?gift = [PosInf, Fin (1 / 10)]"
    unfolding g by (simp add: derived_fields row_gift_def row_a_def row_c_def)
  have "derive row_gift \<in> set ?gift" "isinf (gross_margin (derive row_gift))"
    unfolding g by (simp_all add: derived_fields row_gift_def row_a_def)
  with avg_gross_margin_skips_nan [OF example_load_gift refl gne]
  have "\<not> isfinite (avg_gross_margin ?gift)" by blast
  with ne m a gm example_load_zero example_load_gift show ?thesis by blast
qed

lemma ranked_full_set:
  assumes "argsort_ok fle isnan asrt"
  shows "set (ranked_full asrt view t) = assign t ` set view"
  by (simp add: ranked_full_def sort_values_set [OF assms])

lemma example_no_rows: "main asrt_t asrt_f [] c = Inl AttributeError"
  by (simp add: main_def load_data_def)

lemma example_load_nowhere:
  "load_data (argsort_insertion tle) [row_nowhere, row_b] = Inr [derive row_nowhere, derive row_b]"
  by (simp add: load_data_def sort_values_def nargsort_def argsort_insertion_def
      row_nowhere_def row_a_def row_b_def isnat_def tle_def upt_rec)

lemma example_missing_region:
  "main (argsort_insertion tle) asrt_f [row_nowhere, row_b] c = Inl TypeError"
proof -
  have "sidebar [derive row_nowhere, derive row_b] = Inl TypeError"
    by (simp add: sidebar_def py_sorted_def mixed_def uniques_def derived_fields
        row_nowhere_def row_a_def row_b_def)
  then show ?thesis
    by (simp add: main_def example_load_nowhere)
qed

text \<open>
  C8. The three ratios are divisions of columns: on a zero divisor they give an
  infinity or NaN, they raise nothing, and the row stays. With sorting routines that
  meet \<open>argsort_ok\<close>, every exception that \<open>main\<close> can end with is accounted for and
  none comes from a ratio: an \<open>AttributeError\<close> only on a data set without rows, a
  \<open>TypeError\<close> only when a text column holds missing cells beside text, an
  \<open>IndexError\<close> only when the region, or the product category, is missing in every
  row; never a \<open>ZeroDivisionError\<close>. On a data set with at least one row and no
  missing text cell \<open>main\<close> ends with a page, whatever numbers the rows hold and
  whatever the criteria are. \<open>load_data\<close> keeps every row and gives it the margin
  \<open>profit / revenue\<close>, which is not finite when the revenue is zero; the ranked table
  keeps every row of the view and gives it \<open>revenue / units\<close> and
  \<open>revenue / total_revenue\<close>, which are not finite when the units, respectively the
  total revenue, are zero.
\<close>

theorem ratios_never_raise:
  assumes t: "argsort_ok tle isnat asrt_t" and f: "argsort_ok fle isnan asrt_f"
  shows "(\<forall>e. main asrt_t asrt_f csv c = Inl e \<longrightarrow>
            (e = AttributeError \<and> csv = [])
          \<or> (e = TypeError \<and> (mixed (map region csv) \<or> mixed (map customer_segment csv)
                \<or> mixed (map product_category csv)))
          \<or> (e = IndexError
                \<and> (set (map region csv) = {None} \<or> set (map product_category csv) = {None})))
    \<and> main asrt_t asrt_f csv c \<noteq> Inl ZeroDivisionError
    \<and> (csv \<noteq> []
        \<and> (\<forall>r \<in> set csv. region r \<noteq> None \<and> customer_segment r \<noteq> None
              \<and> product_category r \<noteq> None)
        \<longrightarrow> (\<exists>page. main asrt_t asrt_f csv c = Inr page))
    \<and> (\<forall>df. load_data asrt_t csv = Inr df \<longrightarrow>
          length df = length csv
          \<and> (\<forall>r \<in> set df.
                gross_margin r = fdiv (profit r) (revenue r)
                \<and> (revenue r = Fin 0 \<longrightarrow> \<not> isfinite (gross_margin r))))
    \<and> length (ranked_full asrt_f view total_rev) = length view
    \<and> (\<forall>r \<in> set (ranked_full asrt_f view total_rev).
          revenue_per_unit r = fdiv (revenue r) (units r)
          \<and> contribution r = fdiv (revenue r) total_rev
          \<and> (units r = Fin 0 \<longrightarrow> \<not> isfinite (revenue_per_unit r))
          \<and> (total_rev = Fin 0 \<longrightarrow> \<not> isfinite (contribution r)))"
proof (intro conjI ballI allI impI)
  fix e assume "main asrt_t asrt_f csv c = Inl e"
  then show "(e = AttributeError \<and> csv = [])
          \<or> (e = TypeError \<and> (mixed (map region csv) \<or> mixed (map customer_segment csv)
                \<or> mixed (map product_category csv)))
          \<or> (e = IndexError
                \<and> (set (map region csv) = {None} \<or> set (map product_category csv) = {None}))"
    by (rule main_Inl [OF t f])
next
  show "main asrt_t asrt_f csv c \<noteq> Inl ZeroDivisionError"
  proof
    assume "main asrt_t asrt_f csv c = Inl ZeroDivisionError"
    from main_Inl [OF t f this] show False by simp
  qed
next
  assume "csv \<noteq> []
        \<and> (\<forall>r \<in> set csv. region r \<noteq> None \<and> customer_segment r \<noteq> None
              \<and> product_category r \<noteq> None)"
  then show "\<exists>page. main asrt_t asrt_f csv c = Inr page"
    using main_returns [OF t f] by blast
next
  fix df assume l: "load_data asrt_t csv = Inr df"
  from load_data_Inr [OF l] show "length df = length csv"
    by (simp add: sort_values_length [OF t])
  fix r assume "r \<in> set df"
  with l show m: "gross_margin r = fdiv (profit r) (revenue r)" by (rule loaded_margin)
  assume "revenue r = Fin 0"
  with m show "\<not> isfinite (gross_margin r)" by (simp add: fdiv_by_zero)
next
  show "length (ranked_full asrt_f view total_rev) = length view"
    by (simp add: ranked_full_def sort_values_length [OF f])
next
  fix r assume "r \<in> set (ranked_full asrt_f view total_rev)"
  then have "r \<in> set (map (assign total_rev) view)"
    by (simp only: ranked_full_def sort_values_set [OF f])
  then obtain s where s: "r = assign total_rev s" by auto
  show u: "revenue_per_unit r = fdiv (revenue r) (units r)" by (simp add: s assigned_fields)
  show k: "contribution r = fdiv (revenue r) total_rev" by (simp add: s assigned_fields)
  { assume "units r = Fin 0"
    with u show "\<not> isfinite (revenue_per_unit r)" by (simp add: fdiv_by_zero) }
  { assume "total_rev = Fin 0"
    with k show "\<not> isfinite (contribution r)" by (simp add: fdiv_by_zero) }
qed

theorem ratios_never_raise_witness:
  "argsort_ok tle isnat (argsort_insertion tle) \<and> argsort_ok fle isnan (argsort_insertion fle)
   \<and> (\<exists>page. main (argsort_insertion tle) (argsort_insertion fle) [row_zero, row_a] north = Inr page)
   \<and> load_data (argsort_insertion tle) [row_zero, row_a] = Inr [derive row_zero, derive row_a]
   \<and> revenue (derive row_zero) = Fin 0
   \<and> \<not> isfinite (gross_margin (derive row_zero))
   \<and> assign (Fin 0) (derive row_zero)
        \<in> set (ranked_full (argsort_insertion fle) [derive row_zero, derive row_a] (Fin 0))
   \<and> units (assign (Fin 0) (derive row_zero)) = Fin 0
   \<and> \<not> isfinite (revenue_per_unit (assign (Fin 0) (derive row_zero)))
   \<and> \<not> isfinite (contribution (assign (Fin 0) (derive row_zero)))
   \<and> main (argsort_insertion tle) (argsort_insertion fle) [] north = Inl AttributeError
   \<and> main (argsort_insertion tle) (argsort_insertion fle) [row_nowhere, row_b] north = Inl TypeError"
proof -
  note w = ratios_never_raise [OF insertion_ok_dates insertion_ok_floats,
      of "[row_zero, row_a]" north "[derive row_zero, derive row_a]" "Fin 0"]
  have l: "load_data (argsort_insertion tle) [row_zero, row_a] = Inr [derive row_zero, derive row_a]"
    by (simp add: load_data_def sort_values_def nargsort_def argsort_insertion_def
        row_zero_def row_a_def isnat_def tle_def upt_rec)
  have a: "derive row_zero \<in> set [derive row_zero, derive row_a]"
    by simp
  have b: "assign (Fin 0) (derive row_zero)
      \<in> set (ranked_full (argsort_insertion fle) [derive row_zero, derive row_a] (Fin 0))"
    by (simp add: ranked_full_set [OF insertion_ok_floats])
  have c: "revenue (derive row_zero) = Fin 0" "units (assign (Fin 0) (derive row_zero)) = Fin 0"
    by (simp_all add: assigned_fields derived_fields row_zero_def)
  have p: "[row_zero, row_a] \<noteq> []
      \<and> (\<forall>r \<in> set [row_zero, row_a]. region r \<noteq> None \<and> customer_segment r \<noteq> None
            \<and> product_category r \<noteq> None)"
    by (simp add: row_zero_def row_a_def)
  from w l a c have "\<not> isfinite (gross_margin (derive row_zero))" by blast
  moreover from w b c have "\<not> isfinite (revenue_per_unit (assign (Fin 0) (derive row_zero)))
      \<and> \<not> isfinite (contribution (assign (Fin 0) (derive row_zero)))" by blast
  moreover from w p have "\<exists>page. main (argsort_insertion tle) (argsort_insertion fle) [row_zero, row_a] north = Inr page"
    by blast
  ultimately show ?thesis
    using l b c insertion_ok_dates insertion_ok_floats example_no_rows example_missing_region
    by blast
qed

section \<open>Rows with equal keys\<close>

text \<open>
  On keys that are all equal, \<open>argsort_backward\<close> returns the positions from the last
  to the first, so a frame sorted with it, in either direction, comes out reversed.
\<close>

lemma ins_front: "\<forall>q \<in> set qs. le (fst p) (fst q) \<Longrightarrow> ins le p qs = p # qs"
  by (cases qs) simp_all

lemma fold_ins_tied:
  "\<forall>p \<in> set ps. \<forall>q \<in> set ps \<union> set acc. le (fst p) (fst q)
   \<Longrightarrow> fold (ins le) ps acc = rev ps @ acc"
proof (induction ps arbitrary: acc)
  case Nil
  then show ?case by simp
next
  case (Cons p ps)
  have "ins le p acc = p # acc"
    using Cons.prems by (intro ins_front) simp
  moreover have "fold (ins le) ps (p # acc) = rev ps @ p # acc"
    using Cons.prems by (intro Cons.IH) auto
  ultimately show ?case by simp
qed

lemma argsort_backward_tied:
  assumes "\<forall>a \<in> set ks. \<forall>b \<in> set ks. le a b"
  shows "argsort_backward le ks = rev [0..<length ks]"
proof -
  let ?ps = "zip ks [0..<length ks]"
  have "\<forall>p \<in> set ?ps. \<forall>q \<in> set ?ps \<union> set []. le (fst p) (fst q)"
    using assms by (auto dest!: set_zip_leftD)
  then have "fold (ins le) ?ps [] = rev ?ps @ []"
    by (rule fold_ins_tied)
  then show ?thesis
    by (simp add: argsort_backward_def rev_map [symmetric])
qed

lemma map_nth_upt_rev: "map ((!) [0..<n]) (rev [0..<n]) = rev [0..<n]"
  by (rule map_idI) simp

lemma sort_values_backward_tied:
  assumes na: "\<forall>r \<in> set df. \<not> isna (key r)"
    and tie: "\<forall>a \<in> set df. \<forall>b \<in> set df. le (key a) (key b)"
  shows "sort_values (argsort_backward le) isna key asc df = rev df"
proof -
  let ?n = "length df"
  let ?items = "map key df"
  have f1: "filter (\<lambda>i. \<not> isna (?items ! i)) [0..<?n] = [0..<?n]"
    using na by (intro filter_True) simp
  have f2: "filter (\<lambda>i. isna (?items ! i)) [0..<?n] = []"
    using na by (intro filter_False) simp
  have items: "map ((!) ?items) [0..<?n] = ?items"
    using map_nth [of ?items] by simp
  have t1: "argsort_backward le ?items = rev [0..<?n]"
    using argsort_backward_tied [of ?items le] tie by simp
  have t2: "argsort_backward le (rev ?items) = rev [0..<?n]"
    using argsort_backward_tied [of "rev ?items" le] tie by simp
  have r: "map ((!) (rev [0..<?n])) [0..<?n] = rev [0..<?n]"
    using map_nth [of "rev [0..<?n]"] by simp
  have d: "map ((!) df) (rev [0..<?n]) = rev df"
    using map_nth [of df] by (simp add: rev_map [symmetric])
  have ri: "map ((!) ?items) (rev [0..<?n]) = rev ?items"
    unfolding rev_map [symmetric] items ..
  have r': "rev (map ((!) (rev [0..<?n])) (rev [0..<?n])) = rev [0..<?n]"
    unfolding rev_map rev_rev_ident r ..
  show ?thesis
  proof (cases asc)
    case True
    then have "nargsort (argsort_backward le) isna asc ?items = rev [0..<?n]"
      by (simp add: nargsort_def Let_def f1 f2 items t1 map_nth_upt_rev)
    then show ?thesis by (simp add: sort_values_def d)
  next
    case False
    then have "nargsort (argsort_backward le) isna asc ?items = rev [0..<?n]"
      by (simp add: nargsort_def Let_def f1 f2 ri t2 r')
    then show ?thesis by (simp add: sort_values_def d)
  qed
qed

lemma tied_rows_fields:
  "\<forall>r \<in> set tied_rows. order_date r = Some (2024, 1, 15, 0) \<and> revenue r = Fin 100"
  by (simp add: tied_rows_def row_a_def)

lemma tied_rows_discount:
  "map discount tied_rows = map (\<lambda>i. Fin (of_nat i)) [0..<20]"
  by (simp add: tied_rows_def comp_def)

lemma tied_rows_not_reversed: "rev tied_rows \<noteq> tied_rows"
proof
  assume "rev tied_rows = tied_rows"
  then have "rev (map discount tied_rows) = map discount tied_rows"
    by (simp add: rev_map)
  then have "hd (rev (map discount tied_rows)) = hd (map discount tied_rows)"
    by simp
  then show False
    unfolding tied_rows_discount by (simp add: hd_rev last_map hd_map)
qed

lemma derive_inj: "map derive xs = map derive ys \<Longrightarrow> xs = ys"
proof -
  assume "map derive xs = map derive ys"
  then have "map sale.truncate (map derive xs) = map sale.truncate (map derive ys)"
    by simp
  then show "xs = ys"
    by (simp add: comp_def derived_truncate)
qed

lemma example_load_tied:
  "load_data (argsort_backward tle) tied_rows = Inr (map derive (rev tied_rows))"
proof -
  have "sort_values (argsort_backward tle) isnat order_date True tied_rows = rev tied_rows"
    using tied_rows_fields by (intro sort_values_backward_tied) (auto simp: isnat_def tle_def)
  moreover have "tied_rows \<noteq> []"
    by (simp add: tied_rows_def upt_rec)
  ultimately show ?thesis
    by (simp add: load_data_rows)
qed

section \<open>The loaded data set is sorted\<close>

text \<open>
  C3, as the code has it. On a data set without rows \<open>load_data\<close> raises; on any
  other it returns a frame. With any sorting routine that meets \<open>argsort_ok\<close>, that
  frame is a permutation of the source rows, each with its two derived columns, so no
  row is dropped, whatever its margin is. The rows are in ascending order of
  \<open>order_date\<close>, those without a date last; when every row has a date the dates are
  sorted. The month of a row is midnight of the first day of the month of its date
  (missing if the date is), and its gross margin is \<open>profit / revenue\<close>. The order of
  rows with equal dates is not determined: \<open>sort_values\<close> runs with its default kind of
  sort, which need not be stable.
\<close>

theorem load_data_sorted:
  assumes ok: "argsort_ok tle isnat asrt"
  shows "load_data asrt [] = Inl AttributeError
    \<and> (csv \<noteq> [] \<longrightarrow> (\<exists>df. load_data asrt csv = Inr df))
    \<and> (\<forall>df. load_data asrt csv = Inr df \<longrightarrow>
          mset df = image_mset derive (mset csv)
          \<and> sorted_wrt (\<lambda>a b. na_last tle isnat (order_date a) (order_date b)) df
          \<and> ((\<forall>s \<in> set csv. order_date s \<noteq> None)
               \<longrightarrow> sorted (map (\<lambda>r. the (order_date r)) df))
          \<and> (\<forall>r \<in> set df.
                sale.truncate r \<in> set csv
                \<and> (\<forall>y m d ns. order_date r = Some (y, m, d, ns) \<longrightarrow> month r = Some (y, m, 1, 0))
                \<and> (order_date r = None \<longrightarrow> month r = None)
                \<and> gross_margin r = fdiv (profit r) (revenue r)))"
proof (intro conjI allI impI)
  show "load_data asrt [] = Inl AttributeError"
    by (rule load_data_empty)
next
  assume "csv \<noteq> []"
  then show "\<exists>df. load_data asrt csv = Inr df"
    by (simp add: load_data_rows)
next
  fix df assume l: "load_data asrt csv = Inr df"
  let ?S = "sort_values asrt isnat order_date True csv"
  from load_data_Inr [OF l] have df: "df = map derive ?S" by simp
  note st = load_data_set [OF ok l]
  show "mset df = image_mset derive (mset csv)"
    using ok l by (rule load_data_mset)
  have "sorted_wrt (\<lambda>a b. na_last tle isnat (order_date a) (order_date b)) ?S"
    using sort_values_sorted [OF ok, of True order_date csv] by simp
  then show n: "sorted_wrt (\<lambda>a b. na_last tle isnat (order_date a) (order_date b)) df"
    by (simp add: df sorted_wrt_map derived_fields)
  show "sorted (map (\<lambda>r. the (order_date r)) df)" if "\<forall>s \<in> set csv. order_date s \<noteq> None"
  proof -
    from that have p: "\<forall>r \<in> set df. order_date r \<noteq> None"
      by (auto simp: st derived_fields)
    have "sorted_wrt (\<lambda>a b. the (order_date a) \<le> the (order_date b)) df"
      using n
    proof (rule sorted_wrt_mono_rel [rotated])
      fix a b assume "a \<in> set df" "b \<in> set df"
        and "na_last tle isnat (order_date a) (order_date b)"
      with p show "the (order_date a) \<le> the (order_date b)"
        by (auto simp: na_last_def isnat_def tle_def split: option.splits)
    qed
    then show ?thesis
      by (simp add: sorted_map)
  qed
  show "\<forall>r \<in> set df.
          sale.truncate r \<in> set csv
          \<and> (\<forall>y m d ns. order_date r = Some (y, m, d, ns) \<longrightarrow> month r = Some (y, m, 1, 0))
          \<and> (order_date r = None \<longrightarrow> month r = None)
          \<and> gross_margin r = fdiv (profit r) (revenue r)"
    by (auto simp: st derived_fields derived_truncate)
qed

theorem load_data_sorted_witness:
  "argsort_ok tle isnat (argsort_insertion tle)
   \<and> load_data (argsort_insertion tle) [row_c, row_a, row_b] = Inr (map derive [row_a, row_b, row_c])
   \<and> mset (map derive [row_a, row_b, row_c]) = image_mset derive (mset [row_c, row_a, row_b])
   \<and> sorted (map (\<lambda>r. the (order_date r)) (map derive [row_a, row_b, row_c]))
   \<and> month (derive row_a) = Some (2024, 1, 1, 0)
   \<and> gross_margin (derive row_a) = Fin (1 / 5)
   \<and> load_data (argsort_insertion tle) [row_nat, row_a] = Inr [derive row_a, derive row_nat]
   \<and> sorted_wrt (\<lambda>a b. na_last tle isnat (order_date a) (order_date b))
        [derive row_a, derive row_nat]
   \<and> month (derive row_nat) = None
   \<and> load_data (argsort_insertion tle) [] = Inl AttributeError"
proof -
  note w = load_data_sorted [OF insertion_ok_dates, of "[row_c, row_a, row_b]"]
  note n = load_data_sorted [OF insertion_ok_dates, of "[row_nat, row_a]"]
  have "\<forall>s \<in> set [row_c, row_a, row_b]. order_date s \<noteq> None"
    by (simp add: row_a_def row_b_def row_c_def)
  with w example_load
  have s: "sorted (map (\<lambda>r. the (order_date r)) (map derive [row_a, row_b, row_c]))"
    by blast
  from w example_load
  have ms: "mset (map derive [row_a, row_b, row_c]) = image_mset derive (mset [row_c, row_a, row_b])"
    by blast
  have "derive row_a \<in> set (map derive [row_a, row_b, row_c])"
    by simp
  moreover have "order_date (derive row_a) = Some (2024, 1, 15, 0)"
    by (simp add: derived_fields row_a_def)
  ultimately have "month (derive row_a) = Some (2024, 1, 1, 0)"
    and "gross_margin (derive row_a) = fdiv (profit (derive row_a)) (revenue (derive row_a))"
    using w example_load by blast+
  then have a: "month (derive row_a) = Some (2024, 1, 1, 0)"
    "gross_margin (derive row_a) = Fin (1 / 5)"
    by (simp_all add: derived_fields row_a_def)
  have "derive row_nat \<in> set [derive row_a, derive row_nat]"
    by simp
  moreover have "order_date (derive row_nat) = None"
    by (simp add: derived_fields row_nat_def)
  ultimately have m: "month (derive row_nat) = None"
    using n example_load_nat by blast
  from n example_load_nat
  have o: "sorted_wrt (\<lambda>a b. na_last tle isnat (order_date a) (order_date b))
        [derive row_a, derive row_nat]"
    by blast
  from w have "load_data (argsort_insertion tle) [] = Inl AttributeError"
    by blast
  with s ms a m o insertion_ok_dates example_load example_load_nat show ?thesis by blast
qed

text \<open>
  The claim that rows with equal dates keep their source order fails on twenty rows
  of one date. A sort that meets \<open>argsort_ok\<close> returns them in another order than
  that of the file; so does the default kind of sort, an introsort that sorts short
  columns by insertion and partitions longer ones.
\<close>

theorem load_data_tie_order_counterexample:
  "argsort_ok tle isnat (argsort_backward tle)
   \<and> map order_date tied_rows = replicate 20 (Some (2024, 1, 15, 0))
   \<and> load_data (argsort_backward tle) tied_rows \<noteq> Inr (map derive tied_rows)"
proof -
  have "map order_date tied_rows = replicate 20 (Some (2024, 1, 15, 0))"
    by (simp add: tied_rows_def row_a_def comp_def map_replicate_const)
  moreover have "load_data (argsort_backward tle) tied_rows \<noteq> Inr (map derive tied_rows)"
    unfolding example_load_tied using derive_inj tied_rows_not_reversed by blast
  ultimately show ?thesis using backward_ok_dates by blast
qed

section \<open>The ranked table is sorted\<close>

lemma mset_take_subset: "mset (take n xs) \<subseteq># mset xs"
proof -
  have "mset xs = mset (take n xs) + mset (drop n xs)"
    by (metis append_take_drop_id mset_append)
  then show ?thesis by simp
qed

lemma ranked_full_mset:
  assumes "argsort_ok fle isnan asrt"
  shows "mset (ranked_full asrt view t) = image_mset (assign t) (mset view)"
  by (simp add: ranked_full_def sort_values_mset [OF assms])

lemma ranked_full_sorted:
  assumes "argsort_ok fle isnan asrt"
  shows "sorted_wrt (\<lambda>a b. na_last (\<lambda>x y. fle y x) isnan (revenue a) (revenue b))
    (ranked_full asrt view t)"
  using sort_values_sorted [OF assms, of False revenue "map (assign t) view"]
  by (simp add: ranked_full_def)

lemma example_rank:
  "rank (argsort_insertion fle) (map derive [row_a, row_c]) (Fin 150) 15
     = [assign (Fin 150) (derive row_a), assign (Fin 150) (derive row_c)]"
  by (simp add: rank_def ranked_full_def sort_values_def nargsort_def argsort_insertion_def
      assigned_fields derived_fields row_a_def row_c_def upt_rec)

text \<open>The one call of \<open>rank\<close>: on the filtered view, with its total revenue and 15 rows.\<close>

lemma main_ranked_table:
  assumes "main asrt_t asrt_f csv c = Inr page"
    and "load_data asrt_t csv = Inr df" and "filtered df c \<noteq> []"
  shows "Dataframe (rank asrt_f (filtered df c) (total_revenue (filtered df c)) 15) \<in> set page"
  using assms by (auto simp: main_def Let_def split: sum.splits)

text \<open>
  C2, as the code has it. With any sorting routine that meets \<open>argsort_ok\<close>, \<open>rank\<close>
  returns \<open>min limit (length view)\<close> rows, hence at most \<open>limit\<close> (\<open>main\<close> passes 15).
  They are in descending order of revenue, rows whose revenue is NaN last, and every
  row that is cut off comes after every row that is kept in that order. The table
  before the cut is a permutation of the view with the two derived columns added:
  each returned row is a row of the view extended by \<open>revenue_per_unit\<close> and
  \<open>contribution\<close>, nothing else changed, and no row of the view is returned more often
  than it occurs there. The order of rows with equal revenue is not determined.
\<close>

theorem rank_sorted:
  assumes ok: "argsort_ok fle isnan asrt"
  shows "length (rank asrt view t limit) = min limit (length view)
    \<and> length (rank asrt view t limit) \<le> limit
    \<and> sorted_wrt (\<lambda>a b. na_last (\<lambda>x y. fle y x) isnan (revenue a) (revenue b))
         (rank asrt view t limit)
    \<and> (\<forall>r \<in> set (rank asrt view t limit). \<forall>s \<in> set (drop limit (ranked_full asrt view t)).
          na_last (\<lambda>x y. fle y x) isnan (revenue r) (revenue s))
    \<and> mset (ranked_full asrt view t) = image_mset (assign t) (mset view)
    \<and> mset (map sale_row.truncate (rank asrt view t limit)) \<subseteq># mset view
    \<and> (\<forall>r \<in> set (rank asrt view t limit).
          sale_row.truncate r \<in> set view
          \<and> r = assign t (sale_row.truncate r)
          \<and> revenue_per_unit r = fdiv (revenue r) (units r)
          \<and> contribution r = fdiv (revenue r) t)"
proof (intro conjI)
  let ?R = "\<lambda>a b. na_last (\<lambda>x y. fle y x) isnan (revenue a) (revenue b)"
  let ?full = "ranked_full asrt view t"
  have len: "length ?full = length view"
    using ranked_full_mset [OF ok, of view t] by (metis size_mset size_image_mset)
  show "length (rank asrt view t limit) = min limit (length view)"
    by (simp add: rank_def len min.commute)
  then show "length (rank asrt view t limit) \<le> limit" by simp
  have "sorted_wrt ?R (take limit ?full @ drop limit ?full)"
    using ranked_full_sorted [OF ok, of view t] by simp
  then have "sorted_wrt ?R (take limit ?full)
      \<and> (\<forall>r \<in> set (take limit ?full). \<forall>s \<in> set (drop limit ?full). ?R r s)"
    unfolding sorted_wrt_append by blast
  then show "sorted_wrt ?R (rank asrt view t limit)"
    and "\<forall>r \<in> set (rank asrt view t limit). \<forall>s \<in> set (drop limit ?full). ?R r s"
    unfolding rank_def by blast+
  show m: "mset ?full = image_mset (assign t) (mset view)"
    using ok by (rule ranked_full_mset)
  have "image_mset sale_row.truncate (mset (take limit ?full))
      \<subseteq># image_mset sale_row.truncate (mset ?full)"
    by (rule image_mset_subseteq_mono) (rule mset_take_subset)
  also have "image_mset sale_row.truncate (mset ?full) = mset view"
    unfolding m by (simp add: image_mset.compositionality comp_def assigned_fields)
  finally show "mset (map sale_row.truncate (rank asrt view t limit)) \<subseteq># mset view"
    by (simp add: rank_def)
  show "\<forall>r \<in> set (rank asrt view t limit).
          sale_row.truncate r \<in> set view
          \<and> r = assign t (sale_row.truncate r)
          \<and> revenue_per_unit r = fdiv (revenue r) (units r)
          \<and> contribution r = fdiv (revenue r) t"
  proof
    fix r assume "r \<in> set (rank asrt view t limit)"
    then have "r \<in> set ?full" unfolding rank_def by (rule in_set_takeD)
    then obtain s where "s \<in> set view" "r = assign t s"
      unfolding ranked_full_set [OF ok] by blast
    then show "sale_row.truncate r \<in> set view
          \<and> r = assign t (sale_row.truncate r)
          \<and> revenue_per_unit r = fdiv (revenue r) (units r)
          \<and> contribution r = fdiv (revenue r) t"
      by (simp add: assigned_fields)
  qed
qed

theorem rank_sorted_witness:
  "argsort_ok fle isnan (argsort_insertion fle)
   \<and> rank (argsort_insertion fle) (map derive [row_a, row_c]) (Fin 150) 15
       = [assign (Fin 150) (derive row_a), assign (Fin 150) (derive row_c)]
   \<and> sale_row.truncate (assign (Fin 150) (derive row_a)) = derive row_a
   \<and> revenue_per_unit (assign (Fin 150) (derive row_a)) = Fin 10
   \<and> contribution (assign (Fin 150) (derive row_a)) = Fin (2 / 3)
   \<and> contribution (assign (Fin 150) (derive row_c)) = Fin (1 / 3)
   \<and> length (rank (argsort_insertion fle) (map derive [row_a, row_c]) (Fin 150) 1) = 1"
proof -
  note w = rank_sorted [OF insertion_ok_floats, of "map derive [row_a, row_c]" "Fin 150"]
  let ?a = "assign (Fin 150) (derive row_a)"
  let ?c = "assign (Fin 150) (derive row_c)"
  have "length (rank (argsort_insertion fle) (map derive [row_a, row_c]) (Fin 150) 1) = 1"
    using w [of 1] by simp
  moreover have "?a \<in> set (rank (argsort_insertion fle) (map derive [row_a, row_c]) (Fin 150) 15)"
    "?c \<in> set (rank (argsort_insertion fle) (map derive [row_a, row_c]) (Fin 150) 15)"
    unfolding example_rank by simp_all
  with w [of 15] have "revenue_per_unit ?a = fdiv (revenue ?a) (units ?a)"
    and "contribution ?a = fdiv (revenue ?a) (Fin 150)"
    and "contribution ?c = fdiv (revenue ?c) (Fin 150)"
    and "?a = assign (Fin 150) (sale_row.truncate ?a)"
    by blast+
  then have "revenue_per_unit ?a = Fin 10" "contribution ?a = Fin (2 / 3)"
    "contribution ?c = Fin (1 / 3)" "sale_row.truncate ?a = derive row_a"
    by (simp_all add: assigned_fields derived_fields row_a_def row_c_def)
  ultimately show ?thesis using insertion_ok_floats example_rank by blast
qed

lemma example_rank_tied:
  "rank (argsort_backward fle) (map derive tied_rows) t 15
   = take 15 (rev (map (assign t) (map derive tied_rows)))"
proof -
  have "sort_values (argsort_backward fle) isnan revenue False (map (assign t) (map derive tied_rows))
      = rev (map (assign t) (map derive tied_rows))"
    using tied_rows_fields
    by (intro sort_values_backward_tied) (auto simp: assigned_fields derived_fields)
  then show ?thesis
    by (simp add: rank_def ranked_full_def)
qed

text \<open>
  The claim that rows with equal revenue keep the order of the data set fails on
  twenty rows of one revenue. A sort that meets \<open>argsort_ok\<close> returns them in another
  order than that of the view, and so does the default kind of sort on a column of
  this length; the 15 rows of the table are then not the first 15 of the view.
\<close>

theorem rank_tie_order_counterexample:
  "argsort_ok fle isnan (argsort_backward fle)
   \<and> map revenue (map derive tied_rows) = replicate 20 (Fin 100)
   \<and> rank (argsort_backward fle) (map derive tied_rows) (Fin 2000) 15
        \<noteq> take 15 (map (assign (Fin 2000)) (map derive tied_rows))"
proof -
  let ?xs = "map (assign (Fin 2000)) (map derive tied_rows)"
  have "map revenue (map derive tied_rows) = replicate 20 (Fin 100)"
    by (simp add: tied_rows_def row_a_def comp_def derived_fields map_replicate_const)
  moreover have "take 15 (rev ?xs) \<noteq> take 15 ?xs"
  proof
    assume "take 15 (rev ?xs) = take 15 ?xs"
    then have "map discount (take 15 (rev ?xs)) = map discount (take 15 ?xs)"
      by simp
    then have "take 15 (rev (map discount tied_rows)) = take 15 (map discount tied_rows)"
      by (simp add: take_map rev_map comp_def assigned_fields derived_fields)
    then have "hd (take 15 (rev (map discount tied_rows))) = hd (take 15 (map discount tied_rows))"
      by simp
    then show False
      unfolding tied_rows_discount by (simp add: hd_rev last_map hd_map)
  qed
  then have "rank (argsort_backward fle) (map derive tied_rows) (Fin 2000) 15 \<noteq> take 15 ?xs"
    unfolding example_rank_tied .
  ultimately show ?thesis using backward_ok_floats by blast
qed

end
